theory Spec2Isabelle
  imports Complex_Main
begin

section \<open>Data model of monopoly.py\<close>

text \<open>
  The classes of \<^verbatim>\<open>monopoly.py\<close> are mutable objects that refer to each other: the
  board holds the cells, a cell refers to its owner, a player refers to the board. The
  model keeps one value of type \<open>game\<close> with the list of cells (the values of the
  \<^verbatim>\<open>Board\<close> dict in insertion order, whose keys are \<open>0, 1, \<dots>\<close>), the house pool
  \<^verbatim>\<open>Board.houses\<close>, and the list \<^verbatim>\<open>Game.players\<close>. A reference to a player is its
  index in \<^verbatim>\<open>Game.players\<close>, a reference to a cell is its key in the board. Names and
  the \<^verbatim>\<open>debug\<close> printing are left out: they feed \<^verbatim>\<open>printd\<close> only.
\<close>

datatype kind =
  Go | Chance | Community_chest | Income_tax | Luxury_tax | Jail | Go_to_jail | Free_parking

datatype color = Brown | Light_blue | Pink | Orange | Red | Yellow | Green | Blue

text \<open>\<^verbatim>\<open>Railroad\<close> and \<^verbatim>\<open>Utility\<close> carry \<open>price\<close>, \<open>owner\<close>, \<open>mortgaged\<close>;
  \<^verbatim>\<open>Property\<close> adds the colour, the rent schedule (a dict), the house count and the
  house price.\<close>

record title =
  price :: int
  owner :: "nat option"
  mortgaged :: bool

record property = title +
  color :: color
  rent_data :: "(int \<times> int) list"
  houses :: int
  house_price :: int

datatype cell = Property property | Railroad title | Utility title | Space kind

record player =
  cash :: int
  bankrupt :: bool
  cash_threshold :: int
  in_jail :: bool
  turns_in_jail :: int
  space :: int

record game =
  board :: "cell list"
  board_houses :: int
  players :: "player list"
  rounds :: int
  rounds_no_monopolies :: int
  draws :: nat

text \<open>The second argument of \<^verbatim>\<open>cover_debt\<close> and \<^verbatim>\<open>declare_bankruptcy\<close>: the string
  \<^verbatim>\<open>'bank'\<close> or a player.\<close>

datatype creditor = Bank | To_player nat

datatype error = ValueError | KeyError | AttributeError | IndexError

text \<open>
  What the model takes from the Python runtime as parameters: the random source (\<open>rand
  rt k\<close> is the number behind the \<open>k\<close>-th draw of the run; \<open>draws\<close> of the game counts
  the draws made so far), and the three computations of the source in binary floating
  point that are not exact there:
  \<^item> \<open>unmortgage_cost rt price\<close> is \<^verbatim>\<open>round(1.1 * (0.5*price))\<close>,
  \<^item> \<open>unmortgage_ok rt cash price threshold\<close> is
    \<^verbatim>\<open>(cash - 1.1*0.5*price) >= threshold\<close>,
  \<^item> \<open>tenth rt cash\<close> is \<^verbatim>\<open>round(0.1*cash)\<close>.
  Halves of integers and their sums are exact in binary floating point (for amounts
  below \<open>2^53\<close>) and are computed in \<open>rat\<close>.
\<close>

record runtime =
  rand :: "nat \<Rightarrow> nat"
  unmortgage_cost :: "int \<Rightarrow> int"
  unmortgage_ok :: "int \<Rightarrow> int \<Rightarrow> int \<Rightarrow> bool"
  tenth :: "int \<Rightarrow> int"

text \<open>Python's \<^verbatim>\<open>round\<close> on a float: to the nearest integer, a tie to the even one.\<close>

definition py_round :: "rat \<Rightarrow> int" where
  "py_round x =
     (let f = \<lfloor>x\<rfloor>; r = x - of_int f
      in if r < 1 / 2 then f else if 1 / 2 < r then f + 1 else if even f then f else f + 1)"

text \<open>\<^verbatim>\<open>0.5*n\<close> for an integer \<open>n\<close>.\<close>

definition half :: "int \<Rightarrow> rat" where
  "half n = of_int n / 2"

text \<open>\<^verbatim>\<open>random.randint(1,6)\<close>: the next draw, as a number from 1 to 6.\<close>

definition randint16 :: "runtime \<Rightarrow> game \<Rightarrow> int \<times> game" where
  "randint16 rt g = (1 + int (rand rt (draws g) mod 6), g\<lparr>draws := Suc (draws g)\<rparr>)"

subsection \<open>Reading and writing objects\<close>

definition pl :: "game \<Rightarrow> nat \<Rightarrow> player" where
  "pl g p = players g ! p"

definition upd_pl :: "nat \<Rightarrow> (player \<Rightarrow> player) \<Rightarrow> game \<Rightarrow> game" where
  "upd_pl p f g = g\<lparr>players := (players g)[p := f (players g ! p)]\<rparr>"

definition upd_cell :: "nat \<Rightarrow> (cell \<Rightarrow> cell) \<Rightarrow> game \<Rightarrow> game" where
  "upd_cell i f g = g\<lparr>board := (board g)[i := f (board g ! i)]\<rparr>"

text \<open>Attributes of a cell. A plain \<^verbatim>\<open>Space\<close> has no owner; the source reads the
  attributes below only after an \<^verbatim>\<open>isinstance\<close> or \<^verbatim>\<open>kind\<close> test.\<close>

fun owner_of :: "cell \<Rightarrow> nat option" where
  "owner_of (Property r) = owner r"
| "owner_of (Railroad t) = owner t"
| "owner_of (Utility t) = owner t"
| "owner_of (Space k) = None"

fun mortgaged_of :: "cell \<Rightarrow> bool" where
  "mortgaged_of (Property r) = mortgaged r"
| "mortgaged_of (Railroad t) = mortgaged t"
| "mortgaged_of (Utility t) = mortgaged t"
| "mortgaged_of (Space k) = False"

fun price_of :: "cell \<Rightarrow> int" where
  "price_of (Property r) = price r"
| "price_of (Railroad t) = price t"
| "price_of (Utility t) = price t"
| "price_of (Space k) = 0"

fun set_owner :: "nat option \<Rightarrow> cell \<Rightarrow> cell" where
  "set_owner w (Property r) = Property (r\<lparr>owner := w\<rparr>)"
| "set_owner w (Railroad t) = Railroad (t\<lparr>owner := w\<rparr>)"
| "set_owner w (Utility t) = Utility (t\<lparr>owner := w\<rparr>)"
| "set_owner w (Space k) = Space k"

fun set_mortgaged :: "bool \<Rightarrow> cell \<Rightarrow> cell" where
  "set_mortgaged b (Property r) = Property (r\<lparr>mortgaged := b\<rparr>)"
| "set_mortgaged b (Railroad t) = Railroad (t\<lparr>mortgaged := b\<rparr>)"
| "set_mortgaged b (Utility t) = Utility (t\<lparr>mortgaged := b\<rparr>)"
| "set_mortgaged b (Space k) = Space k"

fun is_property :: "cell \<Rightarrow> bool" where
  "is_property (Property r) = True"
| "is_property c = False"

fun is_railroad :: "cell \<Rightarrow> bool" where
  "is_railroad (Railroad t) = True"
| "is_railroad c = False"

fun is_utility :: "cell \<Rightarrow> bool" where
  "is_utility (Utility t) = True"
| "is_utility c = False"

fun houses_of :: "cell \<Rightarrow> int" where
  "houses_of (Property r) = houses r"
| "houses_of c = 0"

fun house_price_of :: "cell \<Rightarrow> int" where
  "house_price_of (Property r) = house_price r"
| "house_price_of c = 0"

fun color_of :: "cell \<Rightarrow> color option" where
  "color_of (Property r) = Some (color r)"
| "color_of c = None"

fun add_houses :: "int \<Rightarrow> cell \<Rightarrow> cell" where
  "add_houses n (Property r) = Property (r\<lparr>houses := houses r + n\<rparr>)"
| "add_houses n c = c"

text \<open>\<^verbatim>\<open>self.board[self.space]\<close>: a \<^verbatim>\<open>KeyError\<close> when the board has no such key.\<close>

definition board_at :: "game \<Rightarrow> int \<Rightarrow> error + nat" where
  "board_at g k = (if 0 \<le> k \<and> k < int (length (board g)) then Inr (nat k) else Inl KeyError)"

section \<open>Board\<close>

fun reset_cell :: "cell \<Rightarrow> cell" where
  "reset_cell (Property r) = Property (r\<lparr>owner := None, houses := 0, mortgaged := False\<rparr>)"
| "reset_cell (Railroad t) = Railroad (t\<lparr>owner := None, mortgaged := False\<rparr>)"
| "reset_cell (Utility t) = Utility (t\<lparr>owner := None, mortgaged := False\<rparr>)"
| "reset_cell (Space k) = Space k"

definition board_reset :: "game \<Rightarrow> game" where
  "board_reset g = g\<lparr>board_houses := 44, board := map reset_cell (board g)\<rparr>"

section \<open>Player\<close>

definition move :: "nat \<Rightarrow> int \<Rightarrow> game \<Rightarrow> game" where
  "move p spaces g =
     (let old_space = space (pl g p);
          g1 = upd_pl p (\<lambda>q. q\<lparr>space := (old_space + spaces) mod 40\<rparr>) g
      in if 0 < spaces \<and> space (pl g1 p) < old_space
         then upd_pl p (\<lambda>q. q\<lparr>cash := cash q + 200\<rparr>) g1
         else g1)"


text \<open>\<^verbatim>\<open>Player.owned\<close>: the ownable cells whose owner is this player, in board order.\<close>

definition owned :: "game \<Rightarrow> nat \<Rightarrow> nat list" where
  "owned g p = filter (\<lambda>i. owner_of (board g ! i) = Some p) [0..<length (board g)]"

definition has_monopoly :: "game \<Rightarrow> nat \<Rightarrow> color \<Rightarrow> bool" where
  "has_monopoly g p c =
     (let count = length (filter (\<lambda>i. color_of (board g ! i) = Some c) (owned g p));
          need = (if c \<in> set [Blue, Brown] then 2 else 3)
      in \<not> count < need)"

definition COLORS :: "color list" where
  "COLORS = [Brown, Light_blue, Pink, Orange, Red, Yellow, Green, Blue]"

definition monopolies :: "game \<Rightarrow> nat \<Rightarrow> color list" where
  "monopolies g p = filter (has_monopoly g p) COLORS"

definition railroads_owned :: "game \<Rightarrow> nat \<Rightarrow> int" where
  "railroads_owned g p = int (length (filter (\<lambda>i. is_railroad (board g ! i)) (owned g p)))"

definition houses_owned :: "game \<Rightarrow> nat \<Rightarrow> int" where
  "houses_owned g p = sum_list (map (\<lambda>i. houses_of (board g ! i)) (owned g p))"

definition utilities_owned :: "game \<Rightarrow> nat \<Rightarrow> int" where
  "utilities_owned g p = int (length (filter (\<lambda>i. is_utility (board g ! i)) (owned g p)))"

definition almost_monopolies :: "game \<Rightarrow> nat \<Rightarrow> color list" where
  "almost_monopolies g p =
     filter (\<lambda>c. let count = length (filter (\<lambda>i. color_of (board g ! i) = Some c) (owned g p))
                 in (c \<in> set [Brown, Blue] \<and> count = 1) \<or> count = 2) COLORS"

text \<open>\<^verbatim>\<open>Board.color_groups[color]\<close>: the cells of that colour, in board order.\<close>

definition color_group :: "game \<Rightarrow> color \<Rightarrow> nat list" where
  "color_group g c = filter (\<lambda>i. color_of (board g ! i) = Some c) [0..<length (board g)]"

definition wants :: "game \<Rightarrow> nat \<Rightarrow> nat list" where
  "wants g p =
     concat (map (\<lambda>c. filter (\<lambda>i. owner_of (board g ! i) \<noteq> Some p) (color_group g c))
                 (almost_monopolies g p))"

definition trade :: "nat \<Rightarrow> nat \<Rightarrow> nat \<Rightarrow> nat \<Rightarrow> game \<Rightarrow> game" where
  "trade p other buy sell g =
     upd_cell buy (set_owner (Some p)) (upd_cell sell (set_owner (Some other)) g)"

definition mortgage :: "nat \<Rightarrow> nat \<Rightarrow> game \<Rightarrow> error + game" where
  "mortgage p i g =
     (if i \<notin> set (owned g p) then Inl ValueError
      else if mortgaged_of (board g ! i) then Inl ValueError
      else Inr (upd_pl p (\<lambda>q. q\<lparr>cash := cash q + py_round (half (price_of (board g ! i)))\<rparr>)
                  (upd_cell i (set_mortgaged True) g)))"

definition un_mortgage :: "runtime \<Rightarrow> nat \<Rightarrow> nat \<Rightarrow> game \<Rightarrow> error + game" where
  "un_mortgage rt p i g =
     (if i \<notin> set (owned g p) then Inl ValueError
      else if \<not> mortgaged_of (board g ! i) then Inl ValueError
      else Inr (upd_pl p (\<lambda>q. q\<lparr>cash := cash q - unmortgage_cost rt (price_of (board g ! i))\<rparr>)
                  (upd_cell i (set_mortgaged False) g)))"

definition buy :: "nat \<Rightarrow> nat \<Rightarrow> game \<Rightarrow> error + game" where
  "buy p i g =
     (case board g ! i of
        Space k \<Rightarrow> Inl AttributeError
      | c \<Rightarrow>
          if owner_of c \<noteq> None then Inl ValueError
          else Inr (upd_cell i (set_owner (Some p))
                      (upd_pl p (\<lambda>q. q\<lparr>cash := cash q - price_of c\<rparr>) g)))"

definition buy_house :: "nat \<Rightarrow> nat \<Rightarrow> game \<Rightarrow> error + game" where
  "buy_house p i g =
     (if board_houses g = 0 then Inr g
      else case board g ! i of
        Property r \<Rightarrow>
          Inr ((upd_cell i (add_houses 1)
                  (upd_pl p (\<lambda>q. q\<lparr>cash := cash q - house_price r\<rparr>) g))
                \<lparr>board_houses := board_houses g - 1\<rparr>)
      | c \<Rightarrow> Inl AttributeError)"

definition sell_house :: "nat \<Rightarrow> nat \<Rightarrow> game \<Rightarrow> error + game" where
  "sell_house p i g =
     (case board g ! i of
        Property r \<Rightarrow>
          Inr ((upd_cell i (add_houses (- 1))
                  (upd_pl p (\<lambda>q. q\<lparr>cash := cash q + py_round (half (house_price r))\<rparr>) g))
                \<lparr>board_houses := board_houses g + 1\<rparr>)
      | c \<Rightarrow> Inl AttributeError)"

text \<open>\<^verbatim>\<open>declare_bankruptcy(player)\<close>.\<close>

definition declare_bankruptcy :: "nat \<Rightarrow> creditor \<Rightarrow> game \<Rightarrow> game" where
  "declare_bankruptcy p cr g =
     (let g1 = upd_pl p (\<lambda>q. q\<lparr>bankrupt := True\<rparr>) g;
          g2 = fold (\<lambda>i. upd_cell i
                 (set_owner (case cr of Bank \<Rightarrow> None | To_player c \<Rightarrow> Some c)))
                 (owned g1 p) g1
      in case cr of
           Bank \<Rightarrow> g2
         | To_player c \<Rightarrow> upd_pl c (\<lambda>q. q\<lparr>cash := cash q + cash (pl g2 p)\<rparr>) g2)"

text \<open>
  The three loops of \<^verbatim>\<open>cover_debt\<close>. Each runs over the list \<^verbatim>\<open>self.owned\<close> as it was
  when the loop started, carries \<^verbatim>\<open>raised\<close>, and reports whether it executed the
  \<^verbatim>\<open>return\<close>. The first and the third loop differ in their \<^verbatim>\<open>isinstance\<close> test only,
  which is the parameter \<open>which\<close>.
\<close>

fun mortgage_each ::
  "nat \<Rightarrow> int \<Rightarrow> (cell \<Rightarrow> bool) \<Rightarrow> nat list \<Rightarrow> rat \<Rightarrow> game \<Rightarrow> error + (bool \<times> rat \<times> game)" where
  "mortgage_each p debt which [] raised g = Inr (False, raised, g)"
| "mortgage_each p debt which (i # rest) raised g =
     (if which (board g ! i) \<and> \<not> mortgaged_of (board g ! i)
      then (case mortgage p i g of
              Inl e \<Rightarrow> Inl e
            | Inr g1 \<Rightarrow>
                let raised1 = raised + half (price_of (board g1 ! i))
                in if of_int debt < raised1 then Inr (True, raised1, g1)
                   else mortgage_each p debt which rest raised1 g1)
      else mortgage_each p debt which rest raised g)"

fun sell_each ::
  "nat \<Rightarrow> int \<Rightarrow> nat list \<Rightarrow> rat \<Rightarrow> game \<Rightarrow> error + (bool \<times> rat \<times> game)" where
  "sell_each p debt [] raised g = Inr (False, raised, g)"
| "sell_each p debt (i # rest) raised g =
     (if is_property (board g ! i) \<and> 0 < houses_of (board g ! i)
      then (case sell_house p i g of
              Inl e \<Rightarrow> Inl e
            | Inr g1 \<Rightarrow>
                let raised1 = raised + half (house_price_of (board g1 ! i))
                in if of_int debt < raised1 then Inr (True, raised1, g1)
                   else sell_each p debt rest raised1 g1)
      else sell_each p debt rest raised g)"

definition cover_debt :: "nat \<Rightarrow> int \<Rightarrow> creditor \<Rightarrow> game \<Rightarrow> error + game" where
  "cover_debt p debt cr g =
     (case mortgage_each p debt (\<lambda>c. is_railroad c \<or> is_utility c) (owned g p) 0 g of
        Inl e \<Rightarrow> Inl e
      | Inr (returned1, raised1, g1) \<Rightarrow>
          if returned1 then Inr g1
          else (case sell_each p debt (owned g1 p) raised1 g1 of
                  Inl e \<Rightarrow> Inl e
                | Inr (returned2, raised2, g2) \<Rightarrow>
                    if returned2 then Inr g2
                    else (case mortgage_each p debt is_property (owned g2 p) raised2 g2 of
                            Inl e \<Rightarrow> Inl e
                          | Inr (returned3, raised3, g3) \<Rightarrow>
                              if returned3 then Inr g3
                              else Inr (declare_bankruptcy p cr g3))))"

text \<open>
  The rent computed at the head of \<^verbatim>\<open>pay_rent\<close>. A utility draws two dice.
  \<^verbatim>\<open>resolve_space\<close> calls \<^verbatim>\<open>pay_rent\<close> for a cell with an owner only. For a
  cell without one the model returns the \<^verbatim>\<open>AttributeError\<close> that the source raises
  where it first reads an attribute of \<^verbatim>\<open>prop.owner\<close> (the source has paths without
  such a read, all of them for a mortgaged cell and a payer who is bankrupt already).
\<close>

definition rent_due :: "runtime \<Rightarrow> nat \<Rightarrow> game \<Rightarrow> error + (int \<times> game)" where
  "rent_due rt i g =
     (let c = board g ! i
      in if mortgaged_of c then Inr (0, g)
         else (case c of
                 Property r \<Rightarrow>
                   (case map_of (rent_data r) (houses r) of
                      None \<Rightarrow> Inl KeyError
                    | Some rent \<Rightarrow>
                        (case owner r of
                           None \<Rightarrow> Inl AttributeError
                         | Some w \<Rightarrow>
                             Inr (if has_monopoly g w (color r) \<and> houses r = 0
                                  then rent * 2 else rent, g)))
               | Railroad t \<Rightarrow>
                   (case owner t of
                      None \<Rightarrow> Inl AttributeError
                    | Some w \<Rightarrow> Inr (50 * railroads_owned g w, g))
               | Utility t \<Rightarrow>
                   (case owner t of
                      None \<Rightarrow> Inl AttributeError
                    | Some w \<Rightarrow>
                        let mult = (if utilities_owned g w = 1 then 4 else 10);
                            (dice1, g1) = randint16 rt g;
                            (dice2, g2) = randint16 rt g1
                        in Inr (mult * (dice1 + dice2), g2))
               | Space k \<Rightarrow> Inl AttributeError))"

definition pay_rent :: "runtime \<Rightarrow> nat \<Rightarrow> nat \<Rightarrow> game \<Rightarrow> error + game" where
  "pay_rent rt p i g =
     (case rent_due rt i g of
        Inl e \<Rightarrow> Inl e
      | Inr (rent, g1) \<Rightarrow>
          (case owner_of (board g1 ! i) of
             None \<Rightarrow> Inl AttributeError
           | Some w \<Rightarrow>
               (case (if cash (pl g1 p) - rent < 0
                      then cover_debt p (rent - cash (pl g1 p)) (To_player w) g1
                      else Inr g1) of
                  Inl e \<Rightarrow> Inl e
                | Inr g2 \<Rightarrow>
                    if \<not> bankrupt (pl g2 p)
                    then (case owner_of (board g2 ! i) of
                            None \<Rightarrow> Inl AttributeError
                          | Some w2 \<Rightarrow>
                              Inr (upd_pl w2 (\<lambda>q. q\<lparr>cash := cash q + rent\<rparr>)
                                     (upd_pl p (\<lambda>q. q\<lparr>cash := cash q - rent\<rparr>) g2)))
                    else Inr g2)))"

definition pay_bank :: "nat \<Rightarrow> int \<Rightarrow> game \<Rightarrow> error + game" where
  "pay_bank p amount g =
     (case (if cash (pl g p) - amount < 0 then cover_debt p amount Bank g else Inr g) of
        Inl e \<Rightarrow> Inl e
      | Inr g1 \<Rightarrow>
          if \<not> bankrupt (pl g1 p)
          then Inr (upd_pl p (\<lambda>q. q\<lparr>cash := cash q - amount\<rparr>) g1)
          else Inr g1)"

text \<open>\<^verbatim>\<open>roll\<close>: the total of two dice and whether they are equal.\<close>

definition roll :: "runtime \<Rightarrow> game \<Rightarrow> (int \<times> bool) \<times> game" where
  "roll rt g =
     (let (dice1, g1) = randint16 rt g;
          (dice2, g2) = randint16 rt g1
      in ((dice1 + dice2, dice1 = dice2), g2))"

definition go_to_jail :: "nat \<Rightarrow> game \<Rightarrow> game" where
  "go_to_jail p g = upd_pl p (\<lambda>q. q\<lparr>space := 10, in_jail := True\<rparr>) g"

text \<open>\<^verbatim>\<open>resolve_space(space)\<close>, for the cell with key \<open>i\<close>. \<^verbatim>\<open>draw_card\<close> does nothing.\<close>

definition resolve_space :: "runtime \<Rightarrow> nat \<Rightarrow> nat \<Rightarrow> game \<Rightarrow> error + game" where
  "resolve_space rt p i g =
     (case board g ! i of
        Space k \<Rightarrow>
          if k = Luxury_tax then pay_bank p 75 g
          else if k = Income_tax
          then pay_bank p (if 2000 \<le> cash (pl g p) then 200 else tenth rt (cash (pl g p))) g
          else if k = Go_to_jail then Inr (go_to_jail p g)
          else Inr g
      | c \<Rightarrow>
          if owner_of c = Some p then Inr g
          else if owner_of c = None
          then (if cash_threshold (pl g p) < cash (pl g p) - price_of c then buy p i g
                else Inr g)
          else pay_rent rt p i g)"

definition leave_jail :: "runtime \<Rightarrow> nat \<Rightarrow> int \<Rightarrow> game \<Rightarrow> error + game" where
  "leave_jail rt p spaces g =
     (let g1 = move p spaces (upd_pl p (\<lambda>q. q\<lparr>in_jail := False\<rparr>) g)
      in case board_at g1 (space (pl g1 p)) of
           Inl e \<Rightarrow> Inl e
         | Inr i \<Rightarrow>
             (case resolve_space rt p i g1 of
                Inl e \<Rightarrow> Inl e
              | Inr g2 \<Rightarrow> Inr (upd_pl p (\<lambda>q. q\<lparr>turns_in_jail := 0\<rparr>) g2)))"


text \<open>
  The loop of the branch of \<^verbatim>\<open>take_turn\<close> for a player who is not in jail. It is
  entered with \<^verbatim>\<open>roll_again\<close> true, so its test is that of \<^verbatim>\<open>in_jail\<close> and
  \<^verbatim>\<open>bankrupt\<close>; after the body it goes round only when the roll was a double.
\<close>

partial_function (option) roll_loop ::
  "runtime \<Rightarrow> nat \<Rightarrow> int \<Rightarrow> game \<Rightarrow> (error + game) option" where
  "roll_loop rt p double_count g =
     (if in_jail (pl g p) \<or> bankrupt (pl g p) then Some (Inr g)
      else (case roll rt g of
              ((r, roll_again), g1) \<Rightarrow>
                if (if roll_again then double_count + 1 else double_count) = 3
                then Some (Inr (go_to_jail p g1))
                else (case board_at (move p r g1) (space (pl (move p r g1) p)) of
                        Inl e \<Rightarrow> Some (Inl e)
                      | Inr i \<Rightarrow>
                          (case resolve_space rt p i (move p r g1) of
                             Inl e \<Rightarrow> Some (Inl e)
                           | Inr g2 \<Rightarrow>
                               if roll_again
                               then roll_loop rt p (double_count + 1) g2
                               else Some (Inr g2)))))"

text \<open>The first loop of the asset management at the end of \<^verbatim>\<open>take_turn\<close>.\<close>

fun unmortgage_each :: "runtime \<Rightarrow> nat \<Rightarrow> nat list \<Rightarrow> game \<Rightarrow> error + game" where
  "unmortgage_each rt p [] g = Inr g"
| "unmortgage_each rt p (i # rest) g =
     (if mortgaged_of (board g ! i)
         \<and> unmortgage_ok rt (cash (pl g p)) (price_of (board g ! i)) (cash_threshold (pl g p))
      then (case un_mortgage rt p i g of
              Inl e \<Rightarrow> Inl e
            | Inr g1 \<Rightarrow> unmortgage_each rt p rest g1)
      else unmortgage_each rt p rest g)"

text \<open>The \<^verbatim>\<open>for prop in props\<close> loop inside the building loop.\<close>

fun build_for :: "nat \<Rightarrow> int \<Rightarrow> nat list \<Rightarrow> game \<Rightarrow> error + game" where
  "build_for p limit [] g = Inr g"
| "build_for p limit (i # rest) g =
     (if houses_of (board g ! i) < limit
         \<and> cash_threshold (pl g p) \<le> cash (pl g p) - house_price_of (board g ! i)
         \<and> \<not> mortgaged_of (board g ! i)
      then (case buy_house p i g of
              Inl e \<Rightarrow> Inl e
            | Inr g1 \<Rightarrow> build_for p limit rest g1)
      else build_for p limit rest g)"

text \<open>\<^verbatim>\<open>max(h)\<close> for a list with head \<open>x\<close>.\<close>

definition max_list :: "int \<Rightarrow> int list \<Rightarrow> int" where
  "max_list x xs = fold max xs x"

text \<open>The \<^verbatim>\<open>limit\<close> of one round of the building loop, for \<^verbatim>\<open>h\<close> = \<open>h0 # hs\<close>.\<close>

definition build_limit :: "int \<Rightarrow> int list \<Rightarrow> int" where
  "build_limit h0 hs = (if list_all (\<lambda>x. x = h0) (h0 # hs) then h0 + 1 else max_list h0 hs)"

text \<open>
  The \<^verbatim>\<open>while\<close> loop that builds houses on one monopoly. Nothing in the source bounds
  the number of its rounds, so not returning is the value \<open>None\<close>.
\<close>

partial_function (option) build_while ::
  "nat \<Rightarrow> nat list \<Rightarrow> int \<Rightarrow> game \<Rightarrow> (error + game) option" where
  "build_while p props hp g =
     (if cash_threshold (pl g p) \<le> cash (pl g p) - hp \<and> 0 < board_houses g
      then (case map (\<lambda>i. houses_of (board g ! i)) props of
              [] \<Rightarrow> Some (Inl IndexError)
            | h0 # hs \<Rightarrow>
                if list_all (\<lambda>x. x = h0) (h0 # hs) \<and> h0 = 5 then Some (Inr g)
                else (case build_for p (build_limit h0 hs) props g of
                        Inl e \<Rightarrow> Some (Inl e)
                      | Inr g1 \<Rightarrow> build_while p props hp g1))
      else Some (Inr g))"

text \<open>The \<^verbatim>\<open>for color in self.monopolies\<close> loop.\<close>

fun build_each :: "nat \<Rightarrow> color list \<Rightarrow> game \<Rightarrow> (error + game) option" where
  "build_each p [] g = Some (Inr g)"
| "build_each p (c # rest) g =
     (case filter (\<lambda>i. color_of (board g ! i) = Some c) (owned g p) of
        [] \<Rightarrow> Some (Inl IndexError)
      | i0 # others \<Rightarrow>
          (case build_while p (i0 # others) (house_price_of (board g ! i0)) g of
             None \<Rightarrow> None
           | Some (Inl e) \<Rightarrow> Some (Inl e)
           | Some (Inr g1) \<Rightarrow> build_each p rest g1))"

definition manage_assets :: "runtime \<Rightarrow> nat \<Rightarrow> game \<Rightarrow> (error + game) option" where
  "manage_assets rt p g =
     (if cash_threshold (pl g p) < cash (pl g p)
      then (case unmortgage_each rt p (owned g p) g of
              Inl e \<Rightarrow> Some (Inl e)
            | Inr g1 \<Rightarrow> build_each p (monopolies g1 p) g1)
      else Some (Inr g))"

text \<open>The branch of \<^verbatim>\<open>take_turn\<close> for a player in jail.\<close>

definition jail_turn :: "runtime \<Rightarrow> nat \<Rightarrow> game \<Rightarrow> error + game" where
  "jail_turn rt p g =
     (case roll rt (upd_pl p (\<lambda>q. q\<lparr>turns_in_jail := turns_in_jail q + 1\<rparr>) g) of
        ((r, double), g1) \<Rightarrow>
          if double then leave_jail rt p r g1
          else if turns_in_jail (pl g1 p) = 3
          then (case pay_bank p 50 g1 of
                  Inl e \<Rightarrow> Inl e
                | Inr g2 \<Rightarrow> leave_jail rt p r g2)
          else Inr g1)"

definition take_turn :: "runtime \<Rightarrow> nat \<Rightarrow> game \<Rightarrow> (error + game) option" where
  "take_turn rt p g =
     (case (if in_jail (pl g p) then Some (jail_turn rt p g) else roll_loop rt p 0 g) of
        None \<Rightarrow> None
      | Some (Inl e) \<Rightarrow> Some (Inl e)
      | Some (Inr g1) \<Rightarrow> manage_assets rt p g1)"


section \<open>Game\<close>

definition player_count :: "game \<Rightarrow> int" where
  "player_count g = int (length (filter (\<lambda>q. \<not> bankrupt q) (players g)))"

definition game_over :: "game \<Rightarrow> bool" where
  "game_over g = (player_count g = 1)"

definition active_players :: "game \<Rightarrow> nat list" where
  "active_players g = filter (\<lambda>p. \<not> bankrupt (pl g p)) [0..<length (players g)]"

definition winner :: "game \<Rightarrow> nat option" where
  "winner g =
     (if \<not> game_over g then None
      else List.find (\<lambda>p. \<not> bankrupt (pl g p)) [0..<length (players g)])"

definition has_monopolies :: "game \<Rightarrow> bool" where
  "has_monopolies g = list_ex (\<lambda>p. monopolies g p \<noteq> []) [0..<length (players g)]"

text \<open>
  \<^verbatim>\<open>find_trades(buyer)\<close>: the loop over the sellers. The two nested loops over
  \<^verbatim>\<open>buyer_wants\<close> and \<^verbatim>\<open>seller_wants\<close> keep the first pair of different colours, the
  buyer's cell varying slowest.
\<close>

fun find_trades_from :: "nat \<Rightarrow> nat list \<Rightarrow> game \<Rightarrow> game" where
  "find_trades_from buyer [] g = g"
| "find_trades_from buyer (seller # rest) g =
     (if seller = buyer then find_trades_from buyer rest g
      else let buyer_wants = filter (\<lambda>i. i \<in> set (owned g seller)) (wants g buyer);
               seller_wants = filter (\<lambda>i. i \<in> set (owned g buyer)) (wants g seller)
           in if buyer_wants \<noteq> [] \<and> seller_wants \<noteq> []
              then (case List.find (\<lambda>(b, s). color_of (board g ! b) \<noteq> color_of (board g ! s))
                           (List.product buyer_wants seller_wants) of
                      Some (b, s) \<Rightarrow> trade buyer seller b s g
                    | None \<Rightarrow> find_trades_from buyer rest g)
              else find_trades_from buyer rest g)"

definition find_trades :: "nat \<Rightarrow> game \<Rightarrow> game" where
  "find_trades buyer g = find_trades_from buyer [0..<length (players g)] g"

definition player_reset :: "player \<Rightarrow> player" where
  "player_reset q = q\<lparr>cash := 1500, bankrupt := False, in_jail := False,
                       turns_in_jail := 0, space := 0\<rparr>"

definition reset :: "game \<Rightarrow> game" where
  "reset g = (board_reset g)\<lparr>players := map player_reset (players g), rounds := 0\<rparr>"

text \<open>The loop of \<^verbatim>\<open>play_round\<close> over the players.\<close>

fun play_turns :: "runtime \<Rightarrow> nat list \<Rightarrow> game \<Rightarrow> (error + game) option" where
  "play_turns rt [] g = Some (Inr g)"
| "play_turns rt (p # rest) g =
     (if bankrupt (pl g p) then play_turns rt rest g
      else (case take_turn rt p g of
              None \<Rightarrow> None
            | Some (Inl e) \<Rightarrow> Some (Inl e)
            | Some (Inr g1) \<Rightarrow>
                if game_over (find_trades p g1) then Some (Inr (find_trades p g1))
                else play_turns rt rest (find_trades p g1)))"

definition play_round :: "runtime \<Rightarrow> game \<Rightarrow> (error + game) option" where
  "play_round rt g = play_turns rt [0..<length (players g)] (g\<lparr>rounds := rounds g + 1\<rparr>)"

text \<open>
  \<^verbatim>\<open>random.sample(xs, k=2)\<close> and \<^verbatim>\<open>random.choice(xs)\<close>, each choice by one draw:
  the sample takes an element and then one of the others, and raises \<^verbatim>\<open>ValueError\<close>
  on fewer than two elements.
\<close>

definition random_below :: "runtime \<Rightarrow> nat \<Rightarrow> game \<Rightarrow> nat \<times> game" where
  "random_below rt n g = (rand rt (draws g) mod n, g\<lparr>draws := Suc (draws g)\<rparr>)"

definition random_sample2 :: "runtime \<Rightarrow> nat list \<Rightarrow> game \<Rightarrow> error + ((nat \<times> nat) \<times> game)" where
  "random_sample2 rt xs g =
     (if length xs < 2 then Inl ValueError
      else let (i, g1) = random_below rt (length xs) g;
               ys = take i xs @ drop (Suc i) xs;
               (j, g2) = random_below rt (length ys) g1
           in Inr ((xs ! i, ys ! j), g2))"

definition random_trade :: "runtime \<Rightarrow> game \<Rightarrow> error + game" where
  "random_trade rt g =
     (case random_sample2 rt (active_players g) g of
        Inl e \<Rightarrow> Inl e
      | Inr ((p1, p2), g1) \<Rightarrow>
          if owned g1 p1 \<noteq> [] \<and> owned g1 p2 \<noteq> []
          then let (i, g2) = random_below rt (length (owned g1 p1)) g1;
                   (j, g3) = random_below rt (length (owned g1 p2)) g2
               in Inr (trade p1 p2 (owned g1 p2 ! j) (owned g1 p1 ! i) g3)
          else Inr g1)"

text \<open>One round of the \<^verbatim>\<open>while\<close> loop of \<^verbatim>\<open>play\<close>, and the loop.\<close>

definition play_step :: "runtime \<Rightarrow> game \<Rightarrow> (error + game) option" where
  "play_step rt g =
     (case (if rounds_no_monopolies g mod 10 = 0 \<and> 0 < rounds_no_monopolies g
            then random_trade rt g else Inr g) of
        Inl e \<Rightarrow> Some (Inl e)
      | Inr g1 \<Rightarrow>
          (case (if 0 < rounds g1 \<and> rounds g1 mod 50 = 0 then random_trade rt g1 else Inr g1) of
             Inl e \<Rightarrow> Some (Inl e)
           | Inr g2 \<Rightarrow>
               (case play_round rt g2 of
                  None \<Rightarrow> None
                | Some (Inl e) \<Rightarrow> Some (Inl e)
                | Some (Inr g3) \<Rightarrow>
                    if \<not> has_monopolies g3
                    then Some (Inr (g3\<lparr>rounds_no_monopolies := rounds_no_monopolies g3 + 1\<rparr>))
                    else Some (Inr (g3\<lparr>rounds_no_monopolies := 0\<rparr>)))))"

partial_function (option) play_loop :: "runtime \<Rightarrow> game \<Rightarrow> (error + game) option" where
  "play_loop rt g =
     (if game_over g then Some (Inr g)
      else (case play_step rt g of
              None \<Rightarrow> None
            | Some (Inl e) \<Rightarrow> Some (Inl e)
            | Some (Inr g1) \<Rightarrow> play_loop rt g1))"

definition play :: "runtime \<Rightarrow> game \<Rightarrow> (error + game) option" where
  "play rt g = play_loop rt (reset g)"

section \<open>Properties and example inputs\<close>

text \<open>
  \<^verbatim>\<open>build_board\<close> reads the cells from the sheet \<^verbatim>\<open>property_data.xlsx\<close>, which is
  not among the source files, and \<^verbatim>\<open>Game\<close> takes any board as an argument: the
  operations above are defined for every list of cells. The examples below are set on a
  board of 40 cells with the layout and the figures of the classic game. The jail is
  cell 10, where \<^verbatim>\<open>go_to_jail\<close> of the source puts a player; the prices 200 and 150
  of a railroad and a utility are the defaults of their constructors; the rent schedule
  of a street is the dict with the keys 0 to 5 that \<^verbatim>\<open>build_board\<close> makes.
\<close>

definition street :: "color \<Rightarrow> int \<Rightarrow> int list \<Rightarrow> int \<Rightarrow> cell" where
  "street c pr rents hp =
     Property \<lparr>price = pr, owner = None, mortgaged = False, color = c,
               rent_data = zip [0, 1, 2, 3, 4, 5] rents, houses = 0, house_price = hp\<rparr>"

definition railroad :: cell where
  "railroad = Railroad \<lparr>price = 200, owner = None, mortgaged = False\<rparr>"

definition utility :: cell where
  "utility = Utility \<lparr>price = 150, owner = None, mortgaged = False\<rparr>"

definition classic_board :: "cell list" where
  "classic_board =
     [Space Go,
      street Brown 60 [2, 10, 30, 90, 160, 250] 50,
      Space Community_chest,
      street Brown 60 [4, 20, 60, 180, 320, 450] 50,
      Space Income_tax,
      railroad,
      street Light_blue 100 [6, 30, 90, 270, 400, 550] 50,
      Space Chance,
      street Light_blue 100 [6, 30, 90, 270, 400, 550] 50,
      street Light_blue 120 [8, 40, 100, 300, 450, 600] 50,
      Space Jail,
      street Pink 140 [10, 50, 150, 450, 625, 750] 100,
      utility,
      street Pink 140 [10, 50, 150, 450, 625, 750] 100,
      street Pink 160 [12, 60, 180, 500, 700, 900] 100,
      railroad,
      street Orange 180 [14, 70, 200, 550, 750, 950] 100,
      Space Community_chest,
      street Orange 180 [14, 70, 200, 550, 750, 950] 100,
      street Orange 200 [16, 80, 220, 600, 800, 1000] 100,
      Space Free_parking,
      street Red 220 [18, 90, 250, 700, 875, 1050] 150,
      Space Chance,
      street Red 220 [18, 90, 250, 700, 875, 1050] 150,
      street Red 240 [20, 100, 300, 750, 925, 1100] 150,
      railroad,
      street Yellow 260 [22, 110, 330, 800, 975, 1150] 150,
      street Yellow 260 [22, 110, 330, 800, 975, 1150] 150,
      utility,
      street Yellow 280 [24, 120, 360, 850, 1025, 1200] 150,
      Space Go_to_jail,
      street Green 300 [26, 130, 390, 900, 1100, 1275] 200,
      street Green 300 [26, 130, 390, 900, 1100, 1275] 200,
      Space Community_chest,
      street Green 320 [28, 150, 450, 1000, 1200, 1400] 200,
      railroad,
      Space Chance,
      street Blue 350 [35, 175, 500, 1100, 1300, 1500] 200,
      Space Luxury_tax,
      street Blue 400 [50, 200, 600, 1400, 1700, 2000] 200]"

text \<open>A player as \<^verbatim>\<open>Player(cash, cash_threshold, space)\<close> makes it, and a game as
  \<^verbatim>\<open>Game(players)\<close> makes it on a new board.\<close>

definition new_player :: "int \<Rightarrow> int \<Rightarrow> int \<Rightarrow> player" where
  "new_player c t s = \<lparr>cash = c, bankrupt = False, cash_threshold = t, in_jail = False,
                        turns_in_jail = 0, space = s\<rparr>"

definition new_game :: "player list \<Rightarrow> game" where
  "new_game ps = \<lparr>board = classic_board, board_houses = 44, players = ps,
                   rounds = 0, rounds_no_monopolies = 0, draws = 0\<rparr>"

text \<open>The runtime of the examples: a random source \<open>r\<close>, and the three computations
  of the source in floating point done in exact arithmetic instead. The two differ on
  some arguments (for a price of 350 the source charges 193 to un-mortgage, the exact
  value 192.5 rounds to 192). No example below un-mortgages a cell or pays the income
  tax, so none depends on them; the general theorems hold for every runtime.\<close>

definition exact_runtime :: "(nat \<Rightarrow> nat) \<Rightarrow> runtime" where
  "exact_runtime r =
     \<lparr>rand = r,
      unmortgage_cost = (\<lambda>pr. py_round (11 / 10 * half pr)),
      unmortgage_ok = (\<lambda>c pr t. of_int t \<le> of_int c - 11 / 10 * half pr),
      tenth = (\<lambda>c. py_round (of_int c / 10))\<rparr>"

text \<open>
  The cascade of \<^verbatim>\<open>cover_debt\<close> in the words of the specification: three steps in
  order, planned from the state in which \<^verbatim>\<open>cover_debt\<close> is called. Each entry of the
  plan is one sale: the mortgage of a cell, or the sale of one house of a cell. Step 1
  mortgages every railroad and utility of the player that is not mortgaged; step 2 sells
  every house on every property of the player, one at a time (here property by property
  in board order: the specification fixes no order among the houses); step 3 mortgages
  every property of the player that is not mortgaged. The sales are made in order, their
  proceeds (half the price, half the house price) are added up, and the cascade returns
  as soon as the sum exceeds the debt; when the plan is used up the player declares
  bankruptcy to the creditor.
\<close>

datatype sale = Mortgage nat | Sell_house nat

definition liquidation_plan :: "game \<Rightarrow> nat \<Rightarrow> sale list" where
  "liquidation_plan g p =
     map Mortgage (filter (\<lambda>i. (is_railroad (board g ! i) \<or> is_utility (board g ! i))
                              \<and> \<not> mortgaged_of (board g ! i)) (owned g p))
     @ concat (map (\<lambda>i. replicate (nat (houses_of (board g ! i))) (Sell_house i))
                  (filter (\<lambda>i. is_property (board g ! i)) (owned g p)))
     @ map Mortgage (filter (\<lambda>i. is_property (board g ! i) \<and> \<not> mortgaged_of (board g ! i))
                        (owned g p))"

text \<open>
  The sales that one call of \<^verbatim>\<open>cover_debt\<close> of the source goes through: its second
  loop visits each property of the player once and sells one house of it, so the plan
  has at most one sale of a house for each property.
\<close>

definition single_pass_plan :: "game \<Rightarrow> nat \<Rightarrow> sale list" where
  "single_pass_plan g p =
     map Mortgage (filter (\<lambda>i. (is_railroad (board g ! i) \<or> is_utility (board g ! i))
                              \<and> \<not> mortgaged_of (board g ! i)) (owned g p))
     @ map Sell_house (filter (\<lambda>i. is_property (board g ! i) \<and> 0 < houses_of (board g ! i))
                          (owned g p))
     @ map Mortgage (filter (\<lambda>i. is_property (board g ! i) \<and> \<not> mortgaged_of (board g ! i))
                        (owned g p))"

fun proceeds :: "game \<Rightarrow> sale \<Rightarrow> rat" where
  "proceeds g (Mortgage i) = half (price_of (board g ! i))"
| "proceeds g (Sell_house i) = half (house_price_of (board g ! i))"

fun perform :: "nat \<Rightarrow> sale \<Rightarrow> game \<Rightarrow> error + game" where
  "perform p (Mortgage i) g = mortgage p i g"
| "perform p (Sell_house i) g = sell_house p i g"

text \<open>The sales of a list, until the sum exceeds the debt: whether it did, the sum, and
  the game reached.\<close>

fun liquidate_part ::
  "nat \<Rightarrow> int \<Rightarrow> sale list \<Rightarrow> rat \<Rightarrow> game \<Rightarrow> error + (bool \<times> rat \<times> game)" where
  "liquidate_part p debt [] raised g = Inr (False, raised, g)"
| "liquidate_part p debt (a # rest) raised g =
     (case perform p a g of
        Inl e \<Rightarrow> Inl e
      | Inr g1 \<Rightarrow>
          if of_int debt < raised + proceeds g a then Inr (True, raised + proceeds g a, g1)
          else liquidate_part p debt rest (raised + proceeds g a) g1)"

definition liquidate :: "nat \<Rightarrow> int \<Rightarrow> creditor \<Rightarrow> sale list \<Rightarrow> game \<Rightarrow> error + game" where
  "liquidate p debt cr plan g =
     (case liquidate_part p debt plan 0 g of
        Inl e \<Rightarrow> Inl e
      | Inr (covered, raised, g1) \<Rightarrow>
          if covered then Inr g1 else Inr (declare_bankruptcy p cr g1))"

definition house_total :: "game \<Rightarrow> int" where
  "house_total g = sum_list (map houses_of (board g))"

definition pool_inv :: "game \<Rightarrow> bool" where
  "pool_inv g \<longleftrightarrow> 0 \<le> board_houses g \<and> board_houses g + house_total g = 44"

definition house_cap :: "game \<Rightarrow> bool" where
  "house_cap g \<longleftrightarrow> list_all (\<lambda>c. houses_of c \<le> 5) (board g)"

definition level :: "game \<Rightarrow> nat list \<Rightarrow> bool" where
  "level g props \<longleftrightarrow>
     list_all (\<lambda>i. list_all (\<lambda>j. houses_of (board g ! i) \<le> houses_of (board g ! j) + 1) props) props"

definition props_of :: "game \<Rightarrow> nat \<Rightarrow> color \<Rightarrow> nat list" where
  "props_of g p c = filter (\<lambda>i. color_of (board g ! i) = Some c) (owned g p)"


text \<open>What the building loops keep, for the properties \<open>qs\<close> of one colour \<open>c\<close> of the
  player as they are in the game \<open>g0\<close>.\<close>

definition building_frame :: "game \<Rightarrow> nat list \<Rightarrow> game \<Rightarrow> bool" where
  "building_frame g0 qs g \<longleftrightarrow>
     length (board g) = length (board g0)
     \<and> (\<forall>j. owner_of (board g ! j) = owner_of (board g0 ! j)
            \<and> color_of (board g ! j) = color_of (board g0 ! j))
     \<and> level g qs"


text \<open>A predicate on games that every write of the source outside the building loop
  keeps: a write to a player, to a cell's owner or mortgage flag, to the counters, and the
  sale of one house of a property.\<close>

definition stable :: "(game \<Rightarrow> bool) \<Rightarrow> bool" where
  "stable J \<longleftrightarrow>
     (\<forall>g p f. J g \<longrightarrow> J (upd_pl p f g))
   \<and> (\<forall>g i w. J g \<longrightarrow> J (upd_cell i (set_owner w) g))
   \<and> (\<forall>g i b. J g \<longrightarrow> J (upd_cell i (set_mortgaged b) g))
   \<and> (\<forall>g n. J g \<longrightarrow> J (g\<lparr>draws := n\<rparr>))
   \<and> (\<forall>g n. J g \<longrightarrow> J (g\<lparr>rounds := n\<rparr>))
   \<and> (\<forall>g n. J g \<longrightarrow> J (g\<lparr>rounds_no_monopolies := n\<rparr>))
   \<and> (\<forall>g i. J g \<longrightarrow> i < length (board g) \<longrightarrow> is_property (board g ! i) \<longrightarrow>
         J ((upd_cell i (add_houses (- 1)) g)\<lparr>board_houses := board_houses g + 1\<rparr>))"


text \<open>A random source under which the dice show the numbers of the list \<open>ds\<close> (each
  from 1 to 6) one after the other, and 1 from then on.\<close>

definition rolls :: "nat list \<Rightarrow> nat \<Rightarrow> nat" where
  "rolls ds k = (if k < length ds then ds ! k + 5 else 0)"

text \<open>Setting up a position: \<open>deal\<close> makes a player the owner of some cells, \<open>built\<close>
  moves \<open>n\<close> houses from the pool onto a street.\<close>

definition deal :: "nat \<Rightarrow> nat list \<Rightarrow> game \<Rightarrow> game" where
  "deal p cells g = fold (\<lambda>i. upd_cell i (set_owner (Some p))) cells g"

definition built :: "nat \<Rightarrow> int \<Rightarrow> game \<Rightarrow> game" where
  "built i n g = (upd_cell i (add_houses n) g)\<lparr>board_houses := board_houses g - n\<rparr>"

text \<open>Positions of two players on the classic board. In \<open>brown_built\<close> the first
  player holds both brown streets with two houses on each. In \<open>debtor_game\<close> the first
  player has 30 in cash, a brown street and a railroad. In \<open>tax_game\<close> the first player
  has 40 in cash and one utility and stands on the luxury tax. In \<open>brown_owner_game\<close>
  the second player holds both brown streets, without houses. In \<open>bail_game\<close> the first
  player is in jail, two turns so far, with 20 in cash and nothing to sell, and the
  second player owns the railroad at cell 15.\<close>

definition brown_built :: game where
  "brown_built =
     built 3 2 (built 1 2 (deal 0 [1, 3] (new_game [new_player 1500 200 0, new_player 1500 200 0])))"

definition debtor_game :: game where
  "debtor_game = deal 0 [1, 5] (new_game [new_player 30 200 0, new_player 1500 200 0])"

definition tax_game :: game where
  "tax_game = deal 0 [12] (new_game [new_player 40 200 38, new_player 1500 200 0])"

definition brown_owner_game :: game where
  "brown_owner_game = deal 1 [1, 3] (new_game [new_player 1500 200 1, new_player 1500 200 0])"

definition bail_game :: game where
  "bail_game =
     deal 1 [15]
       (new_game [\<lparr>cash = 20, bankrupt = False, cash_threshold = 200, in_jail = True,
                   turns_in_jail = 2, space = 10\<rparr>,
                  new_player 1500 200 0])"

text \<open>The runtime for operations that roll no dice.\<close>

definition no_dice :: runtime where
  "no_dice = exact_runtime (rolls [])"

text \<open>The scenario of the specification: the first player, with 50 in cash, owns a
  street priced 500 (cell 3) and a railroad (cell 5), and stands on a red street of the
  second player that has two houses and a rent of 300.\<close>

definition rent_game :: game where
  "rent_game =
     built 24 2 (built 23 2 (built 21 2 (deal 1 [21, 23, 24] (deal 0 [3, 5]
       ((new_game [new_player 50 200 24, new_player 1500 200 0])
          \<lparr>board := classic_board[3 := street Brown 500 [4, 20, 60, 180, 320, 450] 50]\<rparr>)))))"

text \<open>The first player, with 80 in cash, holds both brown streets with two houses on
  each and stands on the first railroad; the second player owns the four railroads, so the
  rent is 200.\<close>

definition railroad_rent_game :: game where
  "railroad_rent_game =
     built 3 2 (built 1 2 (deal 1 [5, 15, 25, 35] (deal 0 [1, 3]
       (new_game [new_player 80 200 5, new_player 1500 200 0]))))"

text \<open>The first player holds both brown streets, with one house and two houses, has 10
  in cash and stands seven cells before a green street of the second player.\<close>

definition uneven_game :: game where
  "uneven_game =
     built 3 2 (built 1 1 (deal 1 [31] (deal 0 [1, 3]
       (new_game [new_player 10 200 24, new_player 1500 200 0]))))"

text \<open>
  Dice that always show 5 and 5, and the players they keep going round: nobody is
  bankrupt, and everybody is at the start, in jail, or on the free parking.
\<close>

definition fives :: runtime where
  "fives = exact_runtime (\<lambda>k. 4)"

definition circling :: "player \<Rightarrow> bool" where
  "circling q \<longleftrightarrow>
     \<not> bankrupt q \<and> turns_in_jail q = 0
     \<and> ((space q = 0 \<and> \<not> in_jail q) \<or> (space q = 10 \<and> in_jail q)
          \<or> (space q = 20 \<and> \<not> in_jail q))"

definition standstill :: "game \<Rightarrow> bool" where
  "standstill g \<longleftrightarrow>
     board g = classic_board \<and> 2 \<le> length (players g) \<and> list_all circling (players g)"

text \<open>The four players of \<^verbatim>\<open>example.py\<close>, with the cash thresholds 50, 200, 200
  and 500.\<close>

definition four_players :: game where
  "four_players =
     new_game [new_player 1500 50 0, new_player 1500 200 0, new_player 1500 200 0,
               new_player 1500 500 0]"

text \<open>The last round of a game of two players: the first player, with 1000 in cash
  and nothing else, stands on the first blue street; the second player holds both blue
  streets with three houses on each.\<close>

definition last_round :: game where
  "last_round =
     (built 39 3 (built 37 3 (deal 1 [37, 39]
        (new_game [new_player 1000 100000 37, new_player 110 0 10]))))
     \<lparr>rounds := 6\<rparr>"

text \<open>
  The schedule of \<^verbatim>\<open>play\<close> in the words of the specification: before a round,
  \<^verbatim>\<open>random_trade\<close> is called once when the count of rounds without a monopoly is a
  positive multiple of 10, and once when the count of rounds is a positive multiple of
  50; after the round the first count goes up by one, or back to 0 when some player has
  a monopoly.
\<close>

definition trades_due :: "game \<Rightarrow> nat" where
  "trades_due g =
     (if 0 < rounds_no_monopolies g \<and> rounds_no_monopolies g mod 10 = 0 then 1 else 0)
     + (if 0 < rounds g \<and> rounds g mod 50 = 0 then 1 else 0)"

fun random_trades :: "runtime \<Rightarrow> nat \<Rightarrow> game \<Rightarrow> error + game" where
  "random_trades rt 0 g = Inr g"
| "random_trades rt (Suc n) g =
     (case random_trade rt g of Inl e \<Rightarrow> Inl e | Inr g1 \<Rightarrow> random_trades rt n g1)"

definition round_and_count :: "runtime \<Rightarrow> game \<Rightarrow> (error + game) option" where
  "round_and_count rt g =
     (case play_round rt g of
        None \<Rightarrow> None
      | Some (Inl e) \<Rightarrow> Some (Inl e)
      | Some (Inr g1) \<Rightarrow>
          Some (Inr (g1\<lparr>rounds_no_monopolies :=
                          (if has_monopolies g1 then 0 else rounds_no_monopolies g1 + 1)\<rparr>)))"

lemmas ex_defs = street_def railroad_def utility_def classic_board_def new_player_def new_game_def
  exact_runtime_def rolls_def deal_def built_def
  debtor_game_def tax_game_def brown_owner_game_def bail_game_def no_dice_def brown_built_def uneven_game_def fives_def four_players_def last_round_def rent_game_def
  railroad_rent_game_def liquidation_plan_def single_pass_plan_def liquidate_def

lemmas op_defs = pl_def upd_pl_def upd_cell_def owned_def has_monopoly_def monopolies_def COLORS_def
  railroads_owned_def utilities_owned_def mortgage_def un_mortgage_def buy_def buy_house_def sell_house_def
  declare_bankruptcy_def cover_debt_def rent_due_def pay_rent_def pay_bank_def roll_def go_to_jail_def
  resolve_space_def leave_jail_def move_def board_at_def py_round_def half_def randint16_def
  manage_assets_def jail_turn_def take_turn_def max_list_def build_limit_def

section \<open>Frame lemmas and invariants\<close>

subsection \<open>Frame lemmas\<close>

lemma board_upd_pl [simp]: "board (upd_pl p f g) = board g"
  by (simp add: upd_pl_def)

lemma board_houses_upd_pl [simp]: "board_houses (upd_pl p f g) = board_houses g"
  by (simp add: upd_pl_def)

lemma length_players_upd_pl [simp]: "length (players (upd_pl p f g)) = length (players g)"
  by (simp add: upd_pl_def)

lemma players_upd_cell [simp]: "players (upd_cell i f g) = players g"
  by (simp add: upd_cell_def)

lemma board_houses_upd_cell [simp]: "board_houses (upd_cell i f g) = board_houses g"
  by (simp add: upd_cell_def)

lemma length_board_upd_cell [simp]: "length (board (upd_cell i f g)) = length (board g)"
  by (simp add: upd_cell_def)

lemma pl_upd_cell [simp]: "pl (upd_cell i f g) q = pl g q"
  by (simp add: pl_def)

lemma pl_upd_pl:
  "pl (upd_pl p f g) q = (if q = p \<and> p < length (players g) then f (pl g p) else pl g q)"
  by (cases "p < length (players g)") (auto simp: pl_def upd_pl_def nth_list_update list_update_beyond not_less)

lemma nth_board_upd_cell:
  "board (upd_cell i f g) ! j = (if j = i \<and> i < length (board g) then f (board g ! i) else board g ! j)"
  by (cases "i < length (board g)") (auto simp: upd_cell_def nth_list_update list_update_beyond not_less)

lemma pl_draws [simp]: "pl (g\<lparr>draws := n\<rparr>) q = pl g q"
  by (simp add: pl_def)

lemma pl_board_houses [simp]: "pl (g\<lparr>board_houses := n\<rparr>) q = pl g q"
  by (simp add: pl_def)

lemma owner_of_set_mortgaged [simp]: "owner_of (set_mortgaged b c) = owner_of c"
  by (cases c) simp_all

lemma owner_of_add_houses [simp]: "owner_of (add_houses n c) = owner_of c"
  by (cases c) simp_all

lemma houses_of_set_mortgaged [simp]: "houses_of (set_mortgaged b c) = houses_of c"
  by (cases c) simp_all

lemma houses_of_set_owner [simp]: "houses_of (set_owner w c) = houses_of c"
  by (cases c) simp_all

lemma owned_cong: 
  assumes "length (board g') = length (board g)"
    and "\<And>i. i < length (board g) \<Longrightarrow> owner_of (board g' ! i) = owner_of (board g ! i)"
  shows "owned g' q = owned g q"
  unfolding owned_def using assms by (auto intro: filter_cong)

lemma owned_upd_pl [simp]: "owned (upd_pl p f g) q = owned g q"
  by (simp add: owned_def)

lemma owned_upd_cell:
  "(\<And>c. owner_of (f c) = owner_of c) \<Longrightarrow> owned (upd_cell i f g) q = owned g q"
  by (rule owned_cong) (simp_all add: nth_board_upd_cell)

lemma owned_draws [simp]: "owned (g\<lparr>draws := n\<rparr>) q = owned g q"
  by (simp add: owned_def)

lemma owned_board_houses [simp]: "owned (g\<lparr>board_houses := n\<rparr>) q = owned g q"
  by (simp add: owned_def)

lemma owned_less: "i \<in> set (owned g p) \<Longrightarrow> i < length (board g)"
  by (simp add: owned_def)

lemma distinct_owned: "distinct (owned g p)"
  by (simp add: owned_def)

subsection \<open>Invariants that every primitive write keeps\<close>

lemma stable_upd_pl: "stable J \<Longrightarrow> J g \<Longrightarrow> J (upd_pl p f g)"
  by (simp add: stable_def)

lemma stable_set_owner: "stable J \<Longrightarrow> J g \<Longrightarrow> J (upd_cell i (set_owner w) g)"
  by (simp add: stable_def)

lemma stable_set_mortgaged: "stable J \<Longrightarrow> J g \<Longrightarrow> J (upd_cell i (set_mortgaged b) g)"
  by (simp add: stable_def)

lemma stable_draws: "stable J \<Longrightarrow> J g \<Longrightarrow> J (g\<lparr>draws := n\<rparr>)"
  by (simp add: stable_def)

lemma stable_rounds: "stable J \<Longrightarrow> J g \<Longrightarrow> J (g\<lparr>rounds := n\<rparr>)"
  by (simp add: stable_def)

lemma stable_rnm: "stable J \<Longrightarrow> J g \<Longrightarrow> J (g\<lparr>rounds_no_monopolies := n\<rparr>)"
  by (simp add: stable_def)

lemma stable_sell:
  "stable J \<Longrightarrow> J g \<Longrightarrow> i < length (board g) \<Longrightarrow> is_property (board g ! i) \<Longrightarrow>
   J ((upd_cell i (add_houses (- 1)) g)\<lparr>board_houses := board_houses g + 1\<rparr>)"
  by (simp add: stable_def)

lemma stable_length: "stable J \<Longrightarrow> stable (\<lambda>g. J g \<and> length (board g) = n)"
  by (simp add: stable_def)

lemma stable_mortgage: "stable J \<Longrightarrow> J g \<Longrightarrow> mortgage p i g = Inr g' \<Longrightarrow> J g'"
  by (auto simp: mortgage_def stable_upd_pl stable_set_mortgaged split: if_splits)

lemma stable_un_mortgage: "stable J \<Longrightarrow> J g \<Longrightarrow> un_mortgage rt p i g = Inr g' \<Longrightarrow> J g'"
  by (auto simp: un_mortgage_def stable_upd_pl stable_set_mortgaged split: if_splits)

lemma stable_buy: "stable J \<Longrightarrow> J g \<Longrightarrow> buy p i g = Inr g' \<Longrightarrow> J g'"
  by (auto simp: buy_def stable_upd_pl stable_set_owner split: if_splits cell.splits)

lemma upd_pl_board_houses_comm:
  "upd_cell i f (upd_pl p h g) = upd_pl p h (upd_cell i f g)"
  by (simp add: upd_cell_def upd_pl_def)

lemma stable_sell_house:
  assumes "stable J" "J g" "i < length (board g)" "sell_house p i g = Inr g'"
  shows "J g'"
proof -
  from assms(4) obtain r where r: "board g ! i = Property r"
    and g': "g' = (upd_cell i (add_houses (- 1))
                  (upd_pl p (\<lambda>q. q\<lparr>cash := cash q + py_round (half (house_price r))\<rparr>) g))
                \<lparr>board_houses := board_houses g + 1\<rparr>"
    by (auto simp: sell_house_def split: cell.splits)
  let ?g1 = "upd_pl p (\<lambda>q. q\<lparr>cash := cash q + py_round (half (house_price r))\<rparr>) g"
  have "J ?g1" using assms(1,2) by (rule stable_upd_pl)
  moreover have "i < length (board ?g1)" using assms(3) by simp
  moreover have "is_property (board ?g1 ! i)" using r by simp
  ultimately have "J ((upd_cell i (add_houses (- 1)) ?g1)\<lparr>board_houses := board_houses ?g1 + 1\<rparr>)"
    by (rule stable_sell [OF assms(1)])
  then show ?thesis by (simp add: g')
qed

lemma stable_fold_set_owner:
  "stable J \<Longrightarrow> J g \<Longrightarrow> J (fold (\<lambda>i. upd_cell i (set_owner w)) js g)"
  by (induction js arbitrary: g) (simp_all add: stable_set_owner)

lemma stable_declare_bankruptcy: "stable J \<Longrightarrow> J g \<Longrightarrow> J (declare_bankruptcy p cr g)"
  by (cases cr) (simp_all add: declare_bankruptcy_def Let_def stable_upd_pl stable_fold_set_owner)

lemma length_board_sell_house:
  "sell_house p i g = Inr g' \<Longrightarrow> length (board g') = length (board g)"
  by (auto simp: sell_house_def split: cell.splits)

lemma stable_mortgage_each:
  "stable J \<Longrightarrow> J g \<Longrightarrow> mortgage_each p debt which js raised g = Inr (b, r, g') \<Longrightarrow> J g'"
proof (induction js arbitrary: raised g)
  case Nil
  then show ?case by simp
next
  case (Cons i js)
  show ?case
  proof (cases "which (board g ! i) \<and> \<not> mortgaged_of (board g ! i)")
    case False
    with Cons.prems(3) have "mortgage_each p debt which js raised g = Inr (b, r, g')"
      by auto
    with Cons.IH Cons.prems(1,2) show ?thesis by blast
  next
    case True
    with Cons.prems(3) obtain g1 where m: "mortgage p i g = Inr g1"
      by (auto split: sum.splits)
    have J1: "J g1" using Cons.prems(1,2) m by (rule stable_mortgage)
    let ?r1 = "raised + half (price_of (board g1 ! i))"
    show ?thesis
    proof (cases "of_int debt < ?r1")
      case True
      with \<open>which (board g ! i) \<and> \<not> mortgaged_of (board g ! i)\<close> m Cons.prems(3)
      have "g' = g1" by (simp add: Let_def)
      with J1 show ?thesis by simp
    next
      case False
      with \<open>which (board g ! i) \<and> \<not> mortgaged_of (board g ! i)\<close> m Cons.prems(3)
      have "mortgage_each p debt which js ?r1 g1 = Inr (b, r, g')" by (simp add: Let_def)
      with Cons.IH Cons.prems(1) J1 show ?thesis by blast
    qed
  qed
qed

lemma stable_sell_each:
  "stable J \<Longrightarrow> J g \<Longrightarrow> \<forall>i\<in>set js. i < length (board g) \<Longrightarrow>
   sell_each p debt js raised g = Inr (b, r, g') \<Longrightarrow> J g'"
proof (induction js arbitrary: raised g)
  case Nil
  then show ?case by simp
next
  case (Cons i js)
  show ?case
  proof (cases "is_property (board g ! i) \<and> 0 < houses_of (board g ! i)")
    case False
    with Cons.prems(4) have "sell_each p debt js raised g = Inr (b, r, g')"
      by auto
    with Cons.IH Cons.prems(1,2,3) show ?thesis by simp
  next
    case True
    with Cons.prems(4) obtain g1 where m: "sell_house p i g = Inr g1"
      by (auto split: sum.splits)
    have J1: "J g1" using Cons.prems(1,2) _ m by (rule stable_sell_house) (use Cons.prems(3) in simp)
    have len: "length (board g1) = length (board g)" using m by (rule length_board_sell_house)
    let ?r1 = "raised + half (house_price_of (board g1 ! i))"
    show ?thesis
    proof (cases "of_int debt < ?r1")
      case True
      with \<open>is_property (board g ! i) \<and> 0 < houses_of (board g ! i)\<close> m Cons.prems(4)
      have "g' = g1" by (simp add: Let_def)
      with J1 show ?thesis by simp
    next
      case False
      with \<open>is_property (board g ! i) \<and> 0 < houses_of (board g ! i)\<close> m Cons.prems(4)
      have "sell_each p debt js ?r1 g1 = Inr (b, r, g')" by (simp add: Let_def)
      with Cons.IH Cons.prems(1,3) J1 len show ?thesis by simp
    qed
  qed
qed

lemma stable_cover_debt:
  assumes "stable J" "J g" "cover_debt p debt cr g = Inr g'"
  shows "J g'"
proof -
  from assms(3) obtain b1 r1 g1 where
    s1: "mortgage_each p debt (\<lambda>c. is_railroad c \<or> is_utility c) (owned g p) 0 g = Inr (b1, r1, g1)"
    by (auto simp: cover_debt_def split: sum.splits)
  have J1: "J g1" using assms(1,2) s1 by (rule stable_mortgage_each)
  show ?thesis
  proof (cases b1)
    case True
    with s1 assms(3) have "g' = g1" by (simp add: cover_debt_def)
    with J1 show ?thesis by simp
  next
    case nb1: False
    with s1 assms(3) obtain b2 r2 g2 where
      s2: "sell_each p debt (owned g1 p) r1 g1 = Inr (b2, r2, g2)"
      by (auto simp: cover_debt_def split: sum.splits)
    have J2: "J g2" using assms(1) J1 _ s2 by (rule stable_sell_each) (simp add: owned_less)
    show ?thesis
    proof (cases b2)
      case True
      with nb1 s1 s2 assms(3) have "g' = g2" by (simp add: cover_debt_def)
      with J2 show ?thesis by simp
    next
      case nb2: False
      with nb1 s1 s2 assms(3) obtain b3 r3 g3 where
        s3: "mortgage_each p debt is_property (owned g2 p) r2 g2 = Inr (b3, r3, g3)"
        by (auto simp: cover_debt_def split: sum.splits)
      have J3: "J g3" using assms(1) J2 s3 by (rule stable_mortgage_each)
      from nb1 nb2 s1 s2 s3 assms(3)
      have "g' = (if b3 then g3 else declare_bankruptcy p cr g3)"
        by (simp add: cover_debt_def split: if_splits)
      with J3 assms(1) show ?thesis by (simp add: stable_declare_bankruptcy)
    qed
  qed
qed

lemma stable_rent_due:
  "stable J \<Longrightarrow> J g \<Longrightarrow> rent_due rt i g = Inr (rent, g') \<Longrightarrow> J g'"
  by (auto simp: rent_due_def Let_def randint16_def stable_draws
           split: if_splits cell.splits option.splits)

lemma stable_pay_rent:
  assumes "stable J" "J g" "pay_rent rt p i g = Inr g'"
  shows "J g'"
proof -
  from assms(3) obtain rent g1 where rd: "rent_due rt i g = Inr (rent, g1)"
    by (auto simp: pay_rent_def split: sum.splits)
  have J1: "J g1" using assms(1,2) rd by (rule stable_rent_due)
  from assms(3) rd obtain w where w: "owner_of (board g1 ! i) = Some w"
    by (auto simp: pay_rent_def split: option.splits)
  from assms(3) rd w obtain g2 where
    c: "(if cash (pl g1 p) - rent < 0
         then cover_debt p (rent - cash (pl g1 p)) (To_player w) g1 else Inr g1) = Inr g2"
    by (auto simp: pay_rent_def split: sum.splits)
  have J2: "J g2"
    using c J1 assms(1) by (auto split: if_splits intro: stable_cover_debt)
  from assms(3) rd w c show ?thesis
    using J2 assms(1) by (auto simp: pay_rent_def stable_upd_pl split: if_splits option.splits)
qed

lemma stable_pay_bank:
  assumes "stable J" "J g" "pay_bank p amount g = Inr g'"
  shows "J g'"
proof -
  from assms(3) obtain g1 where
    c: "(if cash (pl g p) - amount < 0 then cover_debt p amount Bank g else Inr g) = Inr g1"
    by (auto simp: pay_bank_def split: sum.splits)
  have J1: "J g1"
    using c assms(1,2) by (auto split: if_splits intro: stable_cover_debt)
  from assms(3) c show ?thesis
    using J1 assms(1) by (auto simp: pay_bank_def stable_upd_pl split: if_splits)
qed

lemma stable_go_to_jail: "stable J \<Longrightarrow> J g \<Longrightarrow> J (go_to_jail p g)"
  by (simp add: go_to_jail_def stable_upd_pl)

lemma stable_move: "stable J \<Longrightarrow> J g \<Longrightarrow> J (move p n g)"
  by (simp add: move_def Let_def stable_upd_pl)

lemma stable_resolve_space:
  assumes "stable J" "J g" "resolve_space rt p i g = Inr g'"
  shows "J g'"
proof (cases "board g ! i")
  case (Space k)
  with assms show ?thesis
    by (auto simp: resolve_space_def split: if_splits
             intro: stable_pay_bank stable_go_to_jail)
next
  case (Property r)
  with assms show ?thesis
    by (auto simp: resolve_space_def split: if_splits intro: stable_buy stable_pay_rent)
next
  case (Railroad t)
  with assms show ?thesis
    by (auto simp: resolve_space_def split: if_splits intro: stable_buy stable_pay_rent)
next
  case (Utility t)
  with assms show ?thesis
    by (auto simp: resolve_space_def split: if_splits intro: stable_buy stable_pay_rent)
qed

lemma stable_leave_jail:
  assumes "stable J" "J g" "leave_jail rt p n g = Inr g'"
  shows "J g'"
proof -
  let ?g1 = "move p n (upd_pl p (\<lambda>q. q\<lparr>in_jail := False\<rparr>) g)"
  have J1: "J ?g1" using assms(1,2) by (simp add: stable_move stable_upd_pl)
  from assms(3) obtain i g2 where "resolve_space rt p i ?g1 = Inr g2"
    and g': "g' = upd_pl p (\<lambda>q. q\<lparr>turns_in_jail := 0\<rparr>) g2"
    by (auto simp: leave_jail_def Let_def split: sum.splits)
  with J1 assms(1) have "J g2" by (blast intro: stable_resolve_space)
  with g' assms(1) show ?thesis by (simp add: stable_upd_pl)
qed

lemma stable_roll: "stable J \<Longrightarrow> J g \<Longrightarrow> roll rt g = (x, g') \<Longrightarrow> J g'"
  by (auto simp: roll_def randint16_def Let_def stable_draws)

lemma stable_jail_turn:
  assumes "stable J" "J g" "jail_turn rt p g = Inr g'"
  shows "J g'"
proof -
  let ?g0 = "upd_pl p (\<lambda>q. q\<lparr>turns_in_jail := turns_in_jail q + 1\<rparr>) g"
  obtain r d g1 where ro: "roll rt ?g0 = ((r, d), g1)"
    by (metis prod.exhaust)
  have J1: "J g1" using assms(1) _ ro by (rule stable_roll) (simp add: assms stable_upd_pl)
  from assms(3) ro show ?thesis
    using J1 assms(1)
    by (auto simp: jail_turn_def split: if_splits sum.splits
             intro: stable_leave_jail stable_pay_bank)
qed

lemma stable_roll_loop:
  assumes st: "stable J" and ret: "roll_loop rt p dc g = Some res"
  shows "J g \<longrightarrow> (\<forall>g'. res = Inr g' \<longrightarrow> J g')"
proof (rule roll_loop.raw_induct
    [where P = "\<lambda>rt p dc g res. J g \<longrightarrow> (\<forall>g'. res = Inr g' \<longrightarrow> J g')", OF _ ret])
  fix f rt p double_count g res
  assume IH: "\<And>rt p dc g res. f rt p dc g = Some res \<Longrightarrow> J g \<longrightarrow> (\<forall>g'. res = Inr g' \<longrightarrow> J g')"
    and eq: "(if in_jail (pl g p) \<or> bankrupt (pl g p) then Some (Inr g)
      else (case roll rt g of
              ((r, roll_again), g1) \<Rightarrow>
                if (if roll_again then double_count + 1 else double_count) = 3
                then Some (Inr (go_to_jail p g1))
                else (case board_at (move p r g1) (space (pl (move p r g1) p)) of
                        Inl e \<Rightarrow> Some (Inl e)
                      | Inr i \<Rightarrow>
                          (case resolve_space rt p i (move p r g1) of
                             Inl e \<Rightarrow> Some (Inl e)
                           | Inr g2 \<Rightarrow>
                               if roll_again
                               then f rt p (double_count + 1) g2
                               else Some (Inr g2))))) = Some res"
  show "J g \<longrightarrow> (\<forall>g'. res = Inr g' \<longrightarrow> J g')"
  proof (intro impI allI)
    fix g'
    assume Jg: "J g" and res: "res = Inr g'"
    show "J g'"
    proof (cases "in_jail (pl g p) \<or> bankrupt (pl g p)")
      case True
      with eq res Jg show ?thesis by simp
    next
      case False
      obtain r d g1 where ro: "roll rt g = ((r, d), g1)" by (metis prod.exhaust)
      have J1: "J g1" using st Jg ro by (rule stable_roll)
      show ?thesis
      proof (cases "(if d then double_count + 1 else double_count) = 3")
        case True
        with False eq ro res have "g' = go_to_jail p g1" by simp
        with J1 st show ?thesis by (simp add: stable_go_to_jail)
      next
        case n3: False
        have Jm: "J (move p r g1)" using st J1 by (rule stable_move)
        from False n3 eq ro res obtain i g2 where
          rs: "resolve_space rt p i (move p r g1) = Inr g2"
          and rest: "(if d then f rt p (double_count + 1) g2 else Some (Inr g2)) = Some (Inr g')"
          by (auto split: sum.splits if_splits)
        have J2: "J g2" using st Jm rs by (rule stable_resolve_space)
        show ?thesis
        proof (cases d)
          case True
          with rest have "f rt p (double_count + 1) g2 = Some (Inr g')" by simp
          from IH [OF this] J2 show ?thesis by simp
        next
          case False
          with rest J2 show ?thesis by simp
        qed
      qed
    qed
  qed
qed

lemma stable_unmortgage_each:
  "stable J \<Longrightarrow> J g \<Longrightarrow> unmortgage_each rt p js g = Inr g' \<Longrightarrow> J g'"
proof (induction js arbitrary: g)
  case Nil
  then show ?case by simp
next
  case (Cons i js)
  then show ?case
    by (auto split: if_splits sum.splits dest: stable_un_mortgage)
qed

lemma sum_list_map_update:
  fixes h :: "'a \<Rightarrow> int"
  shows "i < length xs \<Longrightarrow>
    sum_list (map h (xs[i := y])) = sum_list (map h xs) - h (xs ! i) + h y"
proof (induction xs arbitrary: i)
  case Nil
  then show ?case by simp
next
  case (Cons x xs)
  then show ?case by (cases i) simp_all
qed

lemma house_total_upd_cell:
  "i < length (board g) \<Longrightarrow>
   house_total (upd_cell i f g) = house_total g - houses_of (board g ! i) + houses_of (f (board g ! i))"
  by (simp add: house_total_def upd_cell_def sum_list_map_update)

lemma house_total_upd_cell_same:
  assumes "\<And>c. houses_of (f c) = houses_of c"
  shows "house_total (upd_cell i f g) = house_total g"
proof (cases "i < length (board g)")
  case True
  then show ?thesis by (simp add: house_total_upd_cell assms)
next
  case False
  then show ?thesis by (simp add: house_total_def upd_cell_def list_update_beyond)
qed

lemma house_total_upd_pl [simp]: "house_total (upd_pl p f g) = house_total g"
  by (simp add: house_total_def)

lemma houses_of_add_houses: "is_property c \<Longrightarrow> houses_of (add_houses n c) = houses_of c + n"
  by (cases c) simp_all

lemma house_total_fields [simp]:
  "house_total (g\<lparr>draws := n\<rparr>) = house_total g"
  "house_total (g\<lparr>rounds := k\<rparr>) = house_total g"
  "house_total (g\<lparr>rounds_no_monopolies := k\<rparr>) = house_total g"
  "house_total (g\<lparr>board_houses := k\<rparr>) = house_total g"
  by (simp_all add: house_total_def)

lemma stable_pool_inv: "stable pool_inv"
  unfolding stable_def pool_inv_def
  by (auto simp: house_total_upd_cell_same house_total_upd_cell houses_of_add_houses)

lemma pool_inv_board_reset: "pool_inv (board_reset g)"
proof -
  have "houses_of (reset_cell c) = 0" for c by (cases c) simp_all
  then have "sum_list (map houses_of (map reset_cell xs)) = 0" for xs
    by (induction xs) simp_all
  then show ?thesis by (simp add: pool_inv_def board_reset_def house_total_def)
qed

lemma pool_inv_buy_house:
  assumes "pool_inv g" "i < length (board g)" "buy_house p i g = Inr g'"
  shows "pool_inv g'"
proof (cases "board_houses g = 0")
  case True
  with assms show ?thesis by (simp add: buy_house_def)
next
  case False
  with assms(3) obtain r where r: "board g ! i = Property r"
    and g': "g' = (upd_cell i (add_houses 1)
                  (upd_pl p (\<lambda>q. q\<lparr>cash := cash q - house_price r\<rparr>) g))
                \<lparr>board_houses := board_houses g - 1\<rparr>"
    by (auto simp: buy_house_def split: cell.splits)
  show ?thesis
    using assms(1,2) False r
    by (simp add: g' pool_inv_def house_total_def upd_cell_def sum_list_map_update)
qed

lemma length_board_buy_house:
  "buy_house p i g = Inr g' \<Longrightarrow> length (board g') = length (board g)"
  by (auto simp: buy_house_def split: cell.splits if_splits)

lemma build_for_keeps:
  assumes step: "\<And>g i g'. K g \<Longrightarrow> i < n \<Longrightarrow> length (board g) = n \<Longrightarrow>
      houses_of (board g ! i) < limit \<Longrightarrow> buy_house p i g = Inr g' \<Longrightarrow> K g'"
  shows "K g \<Longrightarrow> length (board g) = n \<Longrightarrow> \<forall>i\<in>set js. i < n \<Longrightarrow>
    build_for p limit js g = Inr g' \<Longrightarrow> K g' \<and> length (board g') = n"
proof (induction js arbitrary: g)
  case Nil
  then show ?case by simp
next
  case (Cons i js)
  show ?case
  proof (cases "houses_of (board g ! i) < limit
         \<and> cash_threshold (pl g p) \<le> cash (pl g p) - house_price_of (board g ! i)
         \<and> \<not> mortgaged_of (board g ! i)")
    case False
    with Cons.prems(4) have "build_for p limit js g = Inr g'" by auto
    with Cons.IH Cons.prems(1,2,3) show ?thesis by simp
  next
    case True
    with Cons.prems(4) obtain g1 where b: "buy_house p i g = Inr g1"
      and rest: "build_for p limit js g1 = Inr g'"
      by (auto split: sum.splits)
    have "K g1" using Cons.prems(1) _ Cons.prems(2) _ b
      by (rule step) (use Cons.prems(3) True in simp_all)
    moreover have "length (board g1) = n"
      using length_board_buy_house [OF b] Cons.prems(2) by simp
    ultimately show ?thesis using Cons.IH Cons.prems(3) rest by simp
  qed
qed

lemma build_while_keeps_aux:
  assumes step: "\<And>g h0 hs g'. K g \<Longrightarrow> map (\<lambda>i. houses_of (board g ! i)) props = h0 # hs \<Longrightarrow>
      \<not> (list_all (\<lambda>x. x = h0) (h0 # hs) \<and> h0 = 5) \<Longrightarrow>
      build_for p (build_limit h0 hs) props g = Inr g' \<Longrightarrow> K g'"
    and ret: "build_while p props hp g = Some res"
  shows "K g \<longrightarrow> (\<forall>g'. res = Inr g' \<longrightarrow> K g')"
proof (rule build_while.raw_induct
    [where P = "\<lambda>p' props' hp g res. p' = p \<and> props' = props \<longrightarrow> K g \<longrightarrow> (\<forall>g'. res = Inr g' \<longrightarrow> K g')",
     OF _ ret, THEN mp], goal_cases)
  case (1 f p' props' hp g res)
  show ?case
  proof (intro impI allI, elim conjE)
    fix g'
    assume eqs: "p' = p" "props' = props" and Kg: "K g" and res: "res = Inr g'"
    note eq = 1(2) [unfolded eqs]
    show "K g'"
    proof (cases "cash_threshold (pl g p) \<le> cash (pl g p) - hp \<and> 0 < board_houses g")
      case False
      with eq res Kg show ?thesis by simp
    next
      case True
      with eq res obtain h0 hs where h: "map (\<lambda>i. houses_of (board g ! i)) props = h0 # hs"
        by (auto split: list.splits)
      show ?thesis
      proof (cases "list_all (\<lambda>x. x = h0) (h0 # hs) \<and> h0 = 5")
        case True
        with \<open>cash_threshold (pl g p) \<le> cash (pl g p) - hp \<and> 0 < board_houses g\<close> eq h res Kg
        show ?thesis by auto
      next
        case False
        with True eq h res obtain g1 where
          bf: "build_for p (build_limit h0 hs) props g = Inr g1"
          and rest: "f p props hp g1 = Some (Inr g')"
          by (auto split: sum.splits)
        have "K g1" using Kg h False bf by (rule step)
        with 1(1) [OF rest] eqs show ?thesis by simp
      qed
    qed
  qed
next
  case 2
  show ?case by simp
qed

lemma build_while_keeps:
  assumes step: "\<And>g h0 hs g'. K g \<Longrightarrow> map (\<lambda>i. houses_of (board g ! i)) props = h0 # hs \<Longrightarrow>
      \<not> (list_all (\<lambda>x. x = h0) (h0 # hs) \<and> h0 = 5) \<Longrightarrow>
      build_for p (build_limit h0 hs) props g = Inr g' \<Longrightarrow> K g'"
    and "K g" and ret: "build_while p props hp g = Some (Inr g')"
  shows "K g'"
  using build_while_keeps_aux [where K = K, OF step ret] assms(2) by simp

subsection \<open>The house pool through the asset management\<close>

lemma pool_inv_build_for:
  assumes "pool_inv g" "\<forall>i\<in>set js. i < length (board g)" "build_for p limit js g = Inr g'"
  shows "pool_inv g' \<and> length (board g') = length (board g)"
  by (rule build_for_keeps [where K = pool_inv and n = "length (board g)" and p = p
        and limit = limit and js = js])
     (use assms in \<open>auto intro: pool_inv_buy_house\<close>)

lemma pool_inv_build_while:
  assumes "pool_inv g" "\<forall>i\<in>set props. i < length (board g)"
    and ret: "build_while p props hp g = Some (Inr g')"
  shows "pool_inv g' \<and> length (board g') = length (board g)"
proof -
  let ?K = "\<lambda>x. pool_inv x \<and> length (board x) = length (board g)"
  show ?thesis
  proof (rule build_while_keeps [where K = ?K, OF _ _ ret])
    fix x h0 hs x'
    assume "?K x" and "build_for p (build_limit h0 hs) props x = Inr x'"
    then show "?K x'" using pool_inv_build_for [of x props p "build_limit h0 hs" x'] assms(2)
      by simp
  next
    show "?K g" using assms(1) by simp
  qed
qed

lemma build_each_keeps:
  assumes step: "\<And>g c props hp g'. K g \<Longrightarrow> props = filter (\<lambda>i. color_of (board g ! i) = Some c) (owned g p) \<Longrightarrow>
      build_while p props hp g = Some (Inr g') \<Longrightarrow> K g'"
  shows "K g \<Longrightarrow> build_each p cs g = Some (Inr g') \<Longrightarrow> K g'"
proof (induction cs arbitrary: g)
  case Nil
  then show ?case by simp
next
  case (Cons c cs)
  from Cons.prems(2) obtain i0 others g1 where
    props: "filter (\<lambda>i. color_of (board g ! i) = Some c) (owned g p) = i0 # others"
    and bw: "build_while p (i0 # others) (house_price_of (board g ! i0)) g = Some (Inr g1)"
    and rest: "build_each p cs g1 = Some (Inr g')"
    by (auto split: list.splits option.splits sum.splits)
  have "K g1" using Cons.prems(1) props [symmetric] bw by (rule step)
  then show ?case using rest by (rule Cons.IH)
qed

lemma filter_owned_less:
  "\<forall>i\<in>set (filter P (owned g p)). i < length (board g)"
  by (auto dest: owned_less)

lemma pool_inv_build_each:
  assumes "pool_inv g" "build_each p cs g = Some (Inr g')"
  shows "pool_inv g'"
  by (rule build_each_keeps [where K = pool_inv and p = p, OF _ assms])
     (use pool_inv_build_while filter_owned_less in blast)

lemma pool_inv_manage_assets:
  assumes "pool_inv g" "manage_assets rt p g = Some (Inr g')"
  shows "pool_inv g'"
proof (cases "cash_threshold (pl g p) < cash (pl g p)")
  case False
  with assms show ?thesis by (simp add: manage_assets_def)
next
  case True
  with assms(2) obtain g1 where u: "unmortgage_each rt p (owned g p) g = Inr g1"
    and b: "build_each p (monopolies g1 p) g1 = Some (Inr g')"
    by (auto simp: manage_assets_def split: sum.splits)
  have "pool_inv g1" using stable_pool_inv assms(1) u by (rule stable_unmortgage_each)
  then show ?thesis using b by (rule pool_inv_build_each)
qed

lemma take_turn_phases:
  assumes "take_turn rt p g = Some (Inr g')"
  obtains g1 where
    "(if in_jail (pl g p) then Some (jail_turn rt p g) else roll_loop rt p 0 g) = Some (Inr g1)"
    and "manage_assets rt p g1 = Some (Inr g')"
  using assms by (auto simp: take_turn_def split: option.splits sum.splits)

lemma stable_turn_moves:
  assumes "stable J" "J g"
    and "(if in_jail (pl g p) then Some (jail_turn rt p g) else roll_loop rt p 0 g) = Some (Inr g1)"
  shows "J g1"
proof (cases "in_jail (pl g p)")
  case True
  with assms(3) have "jail_turn rt p g = Inr g1" by simp
  with assms(1,2) show ?thesis by (rule stable_jail_turn)
next
  case False
  with assms(3) have "roll_loop rt p 0 g = Some (Inr g1)" by simp
  from stable_roll_loop [OF assms(1) this] assms(2) show ?thesis by simp
qed

lemma pool_inv_take_turn:
  assumes "pool_inv g" "take_turn rt p g = Some (Inr g')"
  shows "pool_inv g'"
proof -
  from assms(2) obtain g1 where
    m: "(if in_jail (pl g p) then Some (jail_turn rt p g) else roll_loop rt p 0 g) = Some (Inr g1)"
    and a: "manage_assets rt p g1 = Some (Inr g')"
    by (rule take_turn_phases)
  have "pool_inv g1" using stable_pool_inv assms(1) m by (rule stable_turn_moves)
  then show ?thesis using a by (rule pool_inv_manage_assets)
qed

lemma pool_inv_sell_house:
  "pool_inv g \<Longrightarrow> i < length (board g) \<Longrightarrow> sell_house p i g = Inr g' \<Longrightarrow> pool_inv g'"
  using stable_pool_inv by (rule stable_sell_house)

lemma pool_inv_cover_debt:
  "pool_inv g \<Longrightarrow> cover_debt p debt cr g = Inr g' \<Longrightarrow> pool_inv g'"
  using stable_pool_inv by (rule stable_cover_debt)

subsection \<open>No more than five houses\<close>

lemma list_all_update: "list_all P xs \<Longrightarrow> P y \<Longrightarrow> list_all P (xs[i := y])"
  by (auto simp: list_all_iff dest: set_update_subset_insert [THEN subsetD])

lemma house_cap_upd_cell:
  assumes "house_cap g" "i < length (board g) \<Longrightarrow> houses_of (f (board g ! i)) \<le> 5"
  shows "house_cap (upd_cell i f g)"
proof (cases "i < length (board g)")
  case True
  with assms show ?thesis by (simp add: house_cap_def upd_cell_def list_all_update)
next
  case False
  with assms(1) show ?thesis by (simp add: house_cap_def upd_cell_def list_update_beyond)
qed

lemma house_cap_nth: "house_cap g \<Longrightarrow> i < length (board g) \<Longrightarrow> houses_of (board g ! i) \<le> 5"
  by (simp add: house_cap_def list_all_length)

lemma house_cap_fields [simp]:
  "house_cap (upd_pl p f g) = house_cap g"
  "house_cap (g\<lparr>draws := n\<rparr>) = house_cap g"
  "house_cap (g\<lparr>rounds := k\<rparr>) = house_cap g"
  "house_cap (g\<lparr>rounds_no_monopolies := k\<rparr>) = house_cap g"
  "house_cap (g\<lparr>board_houses := k\<rparr>) = house_cap g"
  by (simp_all add: house_cap_def)

lemma stable_house_cap: "stable house_cap"
  unfolding stable_def
proof (intro conjI allI impI)
  fix g i w assume c: "house_cap g"
  then show "house_cap (upd_cell i (set_owner w) g)"
    by (rule house_cap_upd_cell) (use c in \<open>simp add: house_cap_nth\<close>)
next
  fix g i b assume c: "house_cap g"
  then show "house_cap (upd_cell i (set_mortgaged b) g)"
    by (rule house_cap_upd_cell) (use c in \<open>simp add: house_cap_nth\<close>)
next
  fix g i assume c: "house_cap g" and i: "i < length (board g)" and p: "is_property (board g ! i)"
  have "house_cap (upd_cell i (add_houses (- 1)) g)"
    using c by (rule house_cap_upd_cell) (use house_cap_nth [OF c i] p in \<open>simp add: houses_of_add_houses\<close>)
  then show "house_cap (upd_cell i (add_houses (- 1)) g\<lparr>board_houses := board_houses g + 1\<rparr>)"
    by simp
qed simp_all

lemma max_list_ge: "x \<le> max_list x xs \<and> (\<forall>y\<in>set xs. y \<le> max_list x xs)"
  unfolding max_list_def
proof (induction xs arbitrary: x)
  case Nil
  show ?case by simp
next
  case (Cons a xs)
  from Cons.IH [of "max a x"] show ?case by auto
qed

lemma max_list_in: "max_list x xs \<in> set (x # xs)"
  unfolding max_list_def
proof (induction xs arbitrary: x)
  case Nil
  show ?case by simp
next
  case (Cons a xs)
  from Cons.IH [of "max a x"] show ?case by (auto simp: max_def split: if_splits)
qed

lemma build_limit_le:
  assumes "\<forall>y\<in>set (h0 # hs). y \<le> 5" "\<not> (list_all (\<lambda>x. x = h0) (h0 # hs) \<and> h0 = 5)"
  shows "build_limit h0 hs \<le> 5"
proof (cases "list_all (\<lambda>x. x = h0) (h0 # hs)")
  case True
  with assms show ?thesis by (simp add: build_limit_def)
next
  case False
  with assms(1) max_list_in [of h0 hs] show ?thesis by (auto simp: build_limit_def)
qed

lemma buy_house_board:
  "buy_house p i g = Inr g1 \<Longrightarrow>
   board g1 = board g \<or> (is_property (board g ! i) \<and> board g1 = board (upd_cell i (add_houses 1) g))"
  by (auto simp: buy_house_def upd_cell_def split: if_splits cell.splits)

lemma house_cap_buy_house:
  assumes "house_cap g" "i < length (board g)" "houses_of (board g ! i) < limit" "limit \<le> 5"
    and "buy_house p i g = Inr g1"
  shows "house_cap g1"
proof -
  from buy_house_board [OF assms(5)] show ?thesis
  proof
    assume "board g1 = board g"
    with assms(1) show ?thesis by (simp add: house_cap_def)
  next
    assume a: "is_property (board g ! i) \<and> board g1 = board (upd_cell i (add_houses 1) g)"
    have "house_cap (upd_cell i (add_houses 1) g)"
      using assms(1) by (rule house_cap_upd_cell) (use a assms(3,4) in \<open>simp add: houses_of_add_houses\<close>)
    with a show ?thesis by (simp add: house_cap_def)
  qed
qed

lemma house_cap_build_while:
  assumes "house_cap g" "\<forall>i\<in>set props. i < length (board g)"
    and ret: "build_while p props hp g = Some (Inr g')"
  shows "house_cap g' \<and> length (board g') = length (board g)"
proof -
  let ?n = "length (board g)"
  let ?K = "\<lambda>x. house_cap x \<and> length (board x) = ?n"
  show ?thesis
  proof (rule build_while_keeps [where K = ?K, OF _ _ ret])
    fix x h0 hs x'
    assume K: "?K x" and h: "map (\<lambda>i. houses_of (board x ! i)) props = h0 # hs"
      and n5: "\<not> (list_all (\<lambda>x. x = h0) (h0 # hs) \<and> h0 = 5)"
      and bf: "build_for p (build_limit h0 hs) props x = Inr x'"
    have "\<forall>y\<in>set (map (\<lambda>i. houses_of (board x ! i)) props). y \<le> 5"
      using K assms(2) by (auto simp: house_cap_nth)
    then have "\<forall>y\<in>set (h0 # hs). y \<le> 5" unfolding h .
    then have lim: "build_limit h0 hs \<le> 5" using n5 by (rule build_limit_le)
    show "?K x'"
      by (rule build_for_keeps [where K = house_cap and n = ?n and p = p
            and limit = "build_limit h0 hs" and js = props and g = x])
         (use K assms(2) bf lim in \<open>auto intro: house_cap_buy_house\<close>)
  next
    show "?K g" using assms(1) by simp
  qed
qed

lemma house_cap_build_each:
  assumes "house_cap g" "build_each p cs g = Some (Inr g')"
  shows "house_cap g'"
  by (rule build_each_keeps [where K = house_cap and p = p, OF _ assms])
     (use house_cap_build_while filter_owned_less in blast)

lemma house_cap_manage_assets:
  assumes "house_cap g" "manage_assets rt p g = Some (Inr g')"
  shows "house_cap g'"
proof (cases "cash_threshold (pl g p) < cash (pl g p)")
  case False
  with assms show ?thesis by (simp add: manage_assets_def)
next
  case True
  with assms(2) obtain g1 where u: "unmortgage_each rt p (owned g p) g = Inr g1"
    and b: "build_each p (monopolies g1 p) g1 = Some (Inr g')"
    by (auto simp: manage_assets_def split: sum.splits)
  have "house_cap g1" using stable_house_cap assms(1) u by (rule stable_unmortgage_each)
  then show ?thesis using b by (rule house_cap_build_each)
qed

lemma house_cap_take_turn:
  assumes "house_cap g" "take_turn rt p g = Some (Inr g')"
  shows "house_cap g'"
proof -
  from assms(2) obtain g1 where
    m: "(if in_jail (pl g p) then Some (jail_turn rt p g) else roll_loop rt p 0 g) = Some (Inr g1)"
    and a: "manage_assets rt p g1 = Some (Inr g')"
    by (rule take_turn_phases)
  have "house_cap g1" using stable_house_cap assms(1) m by (rule stable_turn_moves)
  then show ?thesis using a by (rule house_cap_manage_assets)
qed

subsection \<open>Even building\<close>

lemma color_of_add_houses [simp]: "color_of (add_houses n c) = color_of c"
  by (cases c) simp_all

lemma color_of_set_mortgaged [simp]: "color_of (set_mortgaged b c) = color_of c"
  by (cases c) simp_all

lemma level_iff:
  "level g props \<longleftrightarrow>
     (\<forall>i\<in>set props. \<forall>j\<in>set props. houses_of (board g ! i) \<le> houses_of (board g ! j) + 1)"
  by (simp add: level_def list_all_iff)

text \<open>What one \<^verbatim>\<open>for prop in props\<close> round does to the cells, for distinct props.\<close>

lemma build_for_effect:
  "distinct js \<Longrightarrow> build_for p L js g = Inr g' \<Longrightarrow>
   length (board g') = length (board g)
   \<and> (\<forall>j. (j \<notin> set js \<longrightarrow> board g' ! j = board g ! j)
          \<and> owner_of (board g' ! j) = owner_of (board g ! j)
          \<and> color_of (board g' ! j) = color_of (board g ! j)
          \<and> houses_of (board g ! j) \<le> houses_of (board g' ! j)
          \<and> houses_of (board g' ! j) \<le> houses_of (board g ! j) + 1
          \<and> (houses_of (board g' ! j) \<le> houses_of (board g ! j) \<or> houses_of (board g' ! j) \<le> L))"
proof (induction js arbitrary: g)
  case Nil
  then show ?case by simp
next
  case (Cons i js)
  from Cons.prems(1) have d: "distinct js" and ni: "i \<notin> set js" by simp_all
  show ?case
  proof (cases "houses_of (board g ! i) < L
         \<and> cash_threshold (pl g p) \<le> cash (pl g p) - house_price_of (board g ! i)
         \<and> \<not> mortgaged_of (board g ! i)")
    case False
    with Cons.prems(2) have "build_for p L js g = Inr g'" by auto
    from Cons.IH [OF d this] show ?thesis by auto
  next
    case True
    with Cons.prems(2) obtain g1 where b: "buy_house p i g = Inr g1"
      and rest: "build_for p L js g1 = Inr g'"
      by (auto split: sum.splits)
    note IH = Cons.IH [OF d rest]
    have I0: "length (board g') = length (board g1)" using IH by simp
    have I1: "j \<notin> set js \<Longrightarrow> board g' ! j = board g1 ! j"
      and I2: "owner_of (board g' ! j) = owner_of (board g1 ! j)"
      and I3: "color_of (board g' ! j) = color_of (board g1 ! j)"
      and I4: "houses_of (board g1 ! j) \<le> houses_of (board g' ! j)"
      and I5: "houses_of (board g' ! j) \<le> houses_of (board g1 ! j) + 1"
      and I6: "houses_of (board g' ! j) \<le> houses_of (board g1 ! j) \<or> houses_of (board g' ! j) \<le> L"
      for j
      using IH by blast+
    have S: "length (board g1) = length (board g)
      \<and> (\<forall>j. (j \<noteq> i \<longrightarrow> board g1 ! j = board g ! j)
          \<and> owner_of (board g1 ! j) = owner_of (board g ! j)
          \<and> color_of (board g1 ! j) = color_of (board g ! j)
          \<and> houses_of (board g ! j) \<le> houses_of (board g1 ! j)
          \<and> houses_of (board g1 ! j) \<le> houses_of (board g ! j) + 1
          \<and> (houses_of (board g1 ! j) \<le> houses_of (board g ! j) \<or> houses_of (board g1 ! j) \<le> L))"
      using buy_house_board [OF b]
    proof
      assume "board g1 = board g"
      then show ?thesis by simp
    next
      assume a: "is_property (board g ! i) \<and> board g1 = board (upd_cell i (add_houses 1) g)"
      have hi: "houses_of (add_houses 1 (board g ! i)) = houses_of (board g ! i) + 1"
        using a by (simp add: houses_of_add_houses)
      have lt: "houses_of (board g ! i) < L" using True by simp
      show ?thesis
      proof (intro conjI allI)
        show "length (board g1) = length (board g)" using a by simp
      next
        fix j
        have c: "board g1 ! j = board g ! j \<or> (j = i \<and> board g1 ! j = add_houses 1 (board g ! i))"
          using a by (auto simp: nth_board_upd_cell)
        show "j \<noteq> i \<longrightarrow> board g1 ! j = board g ! j" using c by auto
        show "owner_of (board g1 ! j) = owner_of (board g ! j)" using c by auto
        show "color_of (board g1 ! j) = color_of (board g ! j)" using c by auto
        show "houses_of (board g ! j) \<le> houses_of (board g1 ! j)" using c hi by auto
        show "houses_of (board g1 ! j) \<le> houses_of (board g ! j) + 1" using c hi by auto
        show "houses_of (board g1 ! j) \<le> houses_of (board g ! j) \<or> houses_of (board g1 ! j) \<le> L"
          using c hi lt by auto
      qed
    qed
    have S0: "length (board g1) = length (board g)" using S by simp
    have S1: "j \<noteq> i \<Longrightarrow> board g1 ! j = board g ! j"
      and S2: "owner_of (board g1 ! j) = owner_of (board g ! j)"
      and S3: "color_of (board g1 ! j) = color_of (board g ! j)"
      and S4: "houses_of (board g ! j) \<le> houses_of (board g1 ! j)"
      and S5: "houses_of (board g1 ! j) \<le> houses_of (board g ! j) + 1"
      and S6: "houses_of (board g1 ! j) \<le> houses_of (board g ! j) \<or> houses_of (board g1 ! j) \<le> L"
      for j
      using S by blast+
    show ?thesis
    proof (intro conjI allI)
      show "length (board g') = length (board g)" using I0 S0 by simp
    next
      fix j
      show "j \<notin> set (i # js) \<longrightarrow> board g' ! j = board g ! j"
        using I1 [of j] S1 [of j] by simp
      show "owner_of (board g' ! j) = owner_of (board g ! j)"
        using I2 [of j] S2 [of j] by simp
      show "color_of (board g' ! j) = color_of (board g ! j)"
        using I3 [of j] S3 [of j] by simp
      show "houses_of (board g ! j) \<le> houses_of (board g' ! j)"
        using I4 [of j] S4 [of j] by linarith
      have one: "houses_of (board g' ! j) = houses_of (board g1 ! j) \<or> board g1 ! j = board g ! j"
        using I1 [of j] S1 [of j] ni by (cases "j = i") auto
      show "houses_of (board g' ! j) \<le> houses_of (board g ! j) + 1"
        using one I5 [of j] S5 [of j] by auto
      show "houses_of (board g' ! j) \<le> houses_of (board g ! j) \<or> houses_of (board g' ! j) \<le> L"
        using one I6 [of j] S6 [of j] by auto
    qed
  qed
qed

lemma level_build_for_own:
  assumes lv: "level g props" and d: "distinct props"
    and h: "map (\<lambda>i. houses_of (board g ! i)) props = h0 # hs"
    and bf: "build_for p (build_limit h0 hs) props g = Inr g'"
  shows "level g' props"
proof -
  let ?h = "\<lambda>j. houses_of (board g ! j)" and ?h' = "\<lambda>j. houses_of (board g' ! j)"
  note e = build_for_effect [OF d bf]
  have lo: "?h j \<le> ?h' j" and up1: "?h' j \<le> ?h j + 1"
    and upL: "?h' j \<le> ?h j \<or> ?h' j \<le> build_limit h0 hs" for j
    using e by auto
  have hset: "set (h0 # hs) = ?h ` set props" using h [symmetric] by simp
  show ?thesis
  proof (cases "list_all (\<lambda>x. x = h0) (h0 # hs)")
    case True
    then have "\<forall>y\<in>set (h0 # hs). y = h0" by (simp add: list_all_iff)
    then have eq: "\<forall>j\<in>set props. ?h j = h0" unfolding hset by simp
    have bnd: "h0 \<le> ?h' j \<and> ?h' j \<le> h0 + 1" if "j \<in> set props" for j
      using eq lo [of j] up1 [of j] that by auto
    show ?thesis
      unfolding level_iff
    proof (intro ballI)
      fix i j assume "i \<in> set props" "j \<in> set props"
      with bnd [of i] bnd [of j] show "?h' i \<le> ?h' j + 1" by linarith
    qed
  next
    case False
    let ?M = "max_list h0 hs"
    have L: "build_limit h0 hs = ?M" using False by (simp add: build_limit_def)
    have "\<forall>y\<in>set (h0 # hs). y \<le> ?M" using max_list_ge [of h0 hs] by simp
    then have le: "\<forall>j\<in>set props. ?h j \<le> ?M" unfolding hset by simp
    have "?M \<in> ?h ` set props" using max_list_in [of h0 hs] unfolding hset .
    then obtain k where k: "k \<in> set props" "?h k = ?M" by auto
    have ge: "\<forall>j\<in>set props. ?M \<le> ?h j + 1"
      using lv k by (auto simp: level_iff)
    have bnd: "?M - 1 \<le> ?h' j \<and> ?h' j \<le> ?M" if j: "j \<in> set props" for j
    proof
      from ge j lo [of j] show "?M - 1 \<le> ?h' j" by force
      from upL [of j] le j show "?h' j \<le> ?M" unfolding L by force
    qed
    show ?thesis
      unfolding level_iff
    proof (intro ballI)
      fix i j assume "i \<in> set props" "j \<in> set props"
      with bnd [of i] bnd [of j] show "?h' i \<le> ?h' j + 1" by linarith
    qed
  qed
qed

lemma level_build_for_other:
  assumes "level g qs" "distinct props" "set qs \<inter> set props = {}"
    and "build_for p L props g = Inr g'"
  shows "level g' qs"
proof -
  from build_for_effect [OF assms(2,4)] assms(3)
  have "\<forall>j\<in>set qs. board g' ! j = board g ! j" by auto
  with assms(1) show ?thesis by (simp add: level_iff)
qed

lemma props_of_cong:
  assumes "length (board g') = length (board g)"
    and "\<And>j. owner_of (board g' ! j) = owner_of (board g ! j)"
    and "\<And>j. color_of (board g' ! j) = color_of (board g ! j)"
  shows "props_of g' p c = props_of g p c"
proof -
  have "owned g' p = owned g p" by (rule owned_cong) (use assms in auto)
  then show ?thesis by (simp add: props_of_def assms(3))
qed

lemma distinct_props_of: "distinct (props_of g p c)"
  by (simp add: props_of_def distinct_owned)

lemma props_of_disjoint: "c \<noteq> c' \<Longrightarrow> set (props_of g p c) \<inter> set (props_of g p c') = {}"
  by (auto simp: props_of_def)

lemma unmortgage_each_frame:
  "unmortgage_each rt p js g = Inr g' \<Longrightarrow>
   length (board g') = length (board g)
   \<and> (\<forall>j. owner_of (board g' ! j) = owner_of (board g ! j)
          \<and> color_of (board g' ! j) = color_of (board g ! j)
          \<and> houses_of (board g' ! j) = houses_of (board g ! j))"
proof (induction js arbitrary: g)
  case Nil
  then show ?case by simp
next
  case (Cons i js)
  show ?case
  proof (cases "mortgaged_of (board g ! i)
         \<and> unmortgage_ok rt (cash (pl g p)) (price_of (board g ! i)) (cash_threshold (pl g p))")
    case False
    with Cons.prems have "unmortgage_each rt p js g = Inr g'" by auto
    from Cons.IH [OF this] show ?thesis .
  next
    case True
    with Cons.prems obtain g1 where u: "un_mortgage rt p i g = Inr g1"
      and rest: "unmortgage_each rt p js g1 = Inr g'"
      by (auto split: sum.splits)
    from u have "board g1 = board (upd_cell i (set_mortgaged False) g)"
      by (auto simp: un_mortgage_def upd_cell_def split: if_splits)
    then have "length (board g1) = length (board g)
       \<and> (\<forall>j. owner_of (board g1 ! j) = owner_of (board g ! j)
          \<and> color_of (board g1 ! j) = color_of (board g ! j)
          \<and> houses_of (board g1 ! j) = houses_of (board g ! j))"
      by (auto simp: nth_board_upd_cell)
    with Cons.IH [OF rest] show ?thesis by auto
  qed
qed

lemma level_build_while:
  assumes K: "building_frame g0 (props_of g0 p c) g"
    and props: "props = props_of g0 p c'"
    and ret: "build_while p props hp g = Some (Inr g')"
  shows "building_frame g0 (props_of g0 p c) g'"
proof (rule build_while_keeps [where K = "building_frame g0 (props_of g0 p c)", OF _ K ret])
  fix x h0 hs x'
  assume Kx: "building_frame g0 (props_of g0 p c) x"
    and h: "map (\<lambda>i. houses_of (board x ! i)) props = h0 # hs"
    and bf: "build_for p (build_limit h0 hs) props x = Inr x'"
  have d: "distinct props" unfolding props by (rule distinct_props_of)
  note e = build_for_effect [OF d bf]
  have lv: "level x' (props_of g0 p c)"
  proof (cases "c' = c")
    case True
    with props have "props = props_of g0 p c" by simp
    with Kx d h bf show ?thesis
      by (auto simp: building_frame_def intro: level_build_for_own)
  next
    case False
    then have "set (props_of g0 p c) \<inter> set props = {}"
      unfolding props by (intro props_of_disjoint) simp
    with Kx d bf show ?thesis
      by (auto simp: building_frame_def intro: level_build_for_other)
  qed
  with Kx e show "building_frame g0 (props_of g0 p c) x'"
    by (simp add: building_frame_def)
qed

lemma level_build_each:
  assumes "building_frame g0 (props_of g0 p c) g" "build_each p cs g = Some (Inr g')"
  shows "building_frame g0 (props_of g0 p c) g'"
proof (rule build_each_keeps [where K = "building_frame g0 (props_of g0 p c)" and p = p, OF _ assms])
  fix x c' props hp x'
  assume Kx: "building_frame g0 (props_of g0 p c) x"
    and props: "props = filter (\<lambda>i. color_of (board x ! i) = Some c') (owned x p)"
    and bw: "build_while p props hp x = Some (Inr x')"
  have "props_of x p c' = props_of g0 p c'"
    by (rule props_of_cong) (use Kx in \<open>auto simp: building_frame_def\<close>)
  with props have "props = props_of g0 p c'" by (simp add: props_of_def)
  with Kx show "building_frame g0 (props_of g0 p c) x'" using bw by (rule level_build_while)
qed

lemma level_manage_assets:
  assumes "level g (props_of g p c)" "manage_assets rt p g = Some (Inr g')"
  shows "level g' (props_of g' p c)"
proof (cases "cash_threshold (pl g p) < cash (pl g p)")
  case False
  with assms show ?thesis by (simp add: manage_assets_def)
next
  case True
  with assms(2) obtain g1 where u: "unmortgage_each rt p (owned g p) g = Inr g1"
    and b: "build_each p (monopolies g1 p) g1 = Some (Inr g')"
    by (auto simp: manage_assets_def split: sum.splits)
  note f = unmortgage_each_frame [OF u]
  have "level g1 (props_of g p c)" using assms(1) f by (simp add: level_iff)
  with f have "building_frame g (props_of g p c) g1" by (simp add: building_frame_def)
  then have K: "building_frame g (props_of g p c) g'" using b by (rule level_build_each)
  have "props_of g' p c = props_of g p c"
    by (rule props_of_cong) (use K in \<open>auto simp: building_frame_def\<close>)
  with K show ?thesis by (simp add: building_frame_def)
qed

subsection \<open>A game in which nobody owns anything\<close>

lemma owned_nobody:
  "list_all (\<lambda>c. owner_of c = None) (board g) \<Longrightarrow> owned g p = []"
  by (auto simp: owned_def list_all_length filter_empty_conv)

lemma classic_board_unowned: "list_all (\<lambda>c. owner_of c = None) classic_board"
  by (simp add: classic_board_def street_def railroad_def utility_def)

lemma monopolies_nothing: "owned g p = [] \<Longrightarrow> monopolies g p = []"
  by (simp add: monopolies_def has_monopoly_def COLORS_def)

lemma wants_nothing: "owned g p = [] \<Longrightarrow> wants g p = []"
  by (simp add: wants_def almost_monopolies_def COLORS_def)

lemma find_trades_from_nothing:
  "wants g buyer = [] \<Longrightarrow> find_trades_from buyer sellers g = g"
  by (induction sellers) simp_all

lemma find_trades_nothing: "owned g buyer = [] \<Longrightarrow> find_trades buyer g = g"
  by (simp add: find_trades_def find_trades_from_nothing wants_nothing)

lemma manage_assets_nothing: "owned g p = [] \<Longrightarrow> manage_assets rt p g = Some (Inr g)"
  by (simp add: manage_assets_def monopolies_nothing)

lemma has_monopolies_nothing:
  "\<forall>p. owned g p = [] \<Longrightarrow> \<not> has_monopolies g"
  by (simp add: has_monopolies_def list_ex_iff monopolies_nothing)

lemma roll_fives: "roll fives g = ((10, True), g\<lparr>draws := Suc (Suc (draws g))\<rparr>)"
  by (simp add: roll_def randint16_def fives_def exact_runtime_def)

lemma classic_cells:
  "length classic_board = 40"
  "classic_board ! 10 = Space Jail"
  "classic_board ! 20 = Space Free_parking"
  "classic_board ! 30 = Space Go_to_jail"
  by (simp_all add: classic_board_def)

lemma owned_classic: "board g = classic_board \<Longrightarrow> owned g p = []"
  by (rule owned_nobody) (simp add: classic_board_unowned)

lemma turn_from_jail:
  assumes "board g = classic_board" "p < length (players g)"
    and "space (pl g p) = 10" "in_jail (pl g p)" "turns_in_jail (pl g p) = 0"
  shows "\<exists>g'. take_turn fives p g = Some (Inr g') \<and> board g' = board g
     \<and> players g' = (players g)[p := (players g ! p)\<lparr>in_jail := False, space := 20,
                                                     turns_in_jail := 0\<rparr>]"
  using assms
  by (simp add: take_turn_def jail_turn_def roll_fives leave_jail_def move_def Let_def
        board_at_def resolve_space_def classic_cells pl_upd_pl manage_assets_nothing owned_classic
        upd_pl_def pl_def)


lemma turn_from_parking:
  assumes "board g = classic_board" "p < length (players g)"
    and "space (pl g p) = 20" "\<not> in_jail (pl g p)" "\<not> bankrupt (pl g p)"
  shows "\<exists>g'. take_turn fives p g = Some (Inr g') \<and> board g' = board g
     \<and> players g' = (players g)[p := (players g ! p)\<lparr>space := 10, in_jail := True\<rparr>]"
  using assms
  by (simp add: take_turn_def roll_loop.simps roll_fives move_def Let_def go_to_jail_def
        board_at_def resolve_space_def classic_cells pl_upd_pl manage_assets_nothing owned_classic
        upd_pl_def pl_def)

lemma turn_from_start:
  assumes "board g = classic_board" "p < length (players g)"
    and "space (pl g p) = 0" "\<not> in_jail (pl g p)" "\<not> bankrupt (pl g p)"
  shows "\<exists>g'. take_turn fives p g = Some (Inr g') \<and> board g' = board g
     \<and> players g' = (players g)[p := (players g ! p)\<lparr>space := 10, in_jail := True\<rparr>]"
  using assms
  by (simp add: take_turn_def roll_loop.simps roll_fives move_def Let_def go_to_jail_def
        board_at_def resolve_space_def classic_cells pl_upd_pl manage_assets_nothing owned_classic
        upd_pl_def pl_def)

lemma take_turn_standstill:
  assumes "standstill g" "p < length (players g)"
  shows "\<exists>g'. take_turn fives p g = Some (Inr g') \<and> standstill g'
     \<and> length (players g') = length (players g)"
proof -
  from assms have b: "board g = classic_board" and n: "2 \<le> length (players g)"
    and all: "list_all circling (players g)" and c: "circling (pl g p)"
    by (simp_all add: standstill_def pl_def list_all_length)
  have keep: "standstill g' \<and> length (players g') = length (players g)"
    if "board g' = board g" "players g' = (players g)[p := q]" "circling q" for g' q
    using that b n all by (simp add: standstill_def list_all_update)
  from c consider "space (pl g p) = 10 \<and> in_jail (pl g p)"
    | "space (pl g p) = 20 \<and> \<not> in_jail (pl g p)"
    | "space (pl g p) = 0 \<and> \<not> in_jail (pl g p)"
    by (auto simp: circling_def)
  then show ?thesis
  proof cases
    case 1
    with c have "turns_in_jail (pl g p) = 0" by (simp add: circling_def)
    with 1 turn_from_jail [OF b assms(2)] obtain g' where
      t: "take_turn fives p g = Some (Inr g')" "board g' = board g"
      "players g' = (players g)[p := (players g ! p)\<lparr>in_jail := False, space := 20,
                                                     turns_in_jail := 0\<rparr>]"
      by blast
    have "circling ((players g ! p)\<lparr>in_jail := False, space := 20, turns_in_jail := 0\<rparr>)"
      using c by (simp add: circling_def pl_def)
    with t keep show ?thesis by blast
  next
    case 2
    with c have "\<not> bankrupt (pl g p)" by (simp add: circling_def)
    with 2 turn_from_parking [OF b assms(2)] obtain g' where
      t: "take_turn fives p g = Some (Inr g')" "board g' = board g"
      "players g' = (players g)[p := (players g ! p)\<lparr>space := 10, in_jail := True\<rparr>]"
      by blast
    have "circling ((players g ! p)\<lparr>space := 10, in_jail := True\<rparr>)"
      using c by (simp add: circling_def pl_def)
    with t keep show ?thesis by blast
  next
    case 3
    with c have "\<not> bankrupt (pl g p)" by (simp add: circling_def)
    with 3 turn_from_start [OF b assms(2)] obtain g' where
      t: "take_turn fives p g = Some (Inr g')" "board g' = board g"
      "players g' = (players g)[p := (players g ! p)\<lparr>space := 10, in_jail := True\<rparr>]"
      by blast
    have "circling ((players g ! p)\<lparr>space := 10, in_jail := True\<rparr>)"
      using c by (simp add: circling_def pl_def)
    with t keep show ?thesis by blast
  qed
qed

lemma standstill_not_over: "standstill g \<Longrightarrow> \<not> game_over g"
proof -
  assume s: "standstill g"
  then have "filter (\<lambda>q. \<not> bankrupt q) (players g) = players g"
    by (auto simp: standstill_def list_all_iff circling_def filter_id_conv)
  with s show ?thesis by (simp add: game_over_def player_count_def standstill_def)
qed

lemma standstill_owned: "standstill g \<Longrightarrow> owned g p = []"
  by (simp add: standstill_def owned_classic)

lemma play_turns_standstill:
  "standstill g \<Longrightarrow> \<forall>p\<in>set ps. p < length (players g) \<Longrightarrow>
   \<exists>g'. play_turns fives ps g = Some (Inr g') \<and> standstill g'
        \<and> length (players g') = length (players g)"
proof (induction ps arbitrary: g)
  case Nil
  then show ?case by simp
next
  case (Cons p ps)
  from Cons.prems have nb: "\<not> bankrupt (pl g p)"
    by (simp add: standstill_def list_all_length circling_def pl_def)
  from Cons.prems take_turn_standstill [of g p] obtain g1 where
    t: "take_turn fives p g = Some (Inr g1)" and s1: "standstill g1"
    and len: "length (players g1) = length (players g)" by auto
  have ft: "find_trades p g1 = g1" using s1 by (simp add: find_trades_nothing standstill_owned)
  from Cons.IH [of g1] s1 Cons.prems(2) len obtain g' where
    "play_turns fives ps g1 = Some (Inr g')" "standstill g'"
    "length (players g') = length (players g1)" by auto
  with nb t ft s1 len show ?case by (simp add: standstill_not_over)
qed


lemma play_round_standstill:
  assumes "standstill g"
  shows "\<exists>g'. play_round fives g = Some (Inr g') \<and> standstill g'"
proof -
  have s: "standstill (g\<lparr>rounds := rounds g + 1\<rparr>)"
    using assms by (simp add: standstill_def)
  from play_turns_standstill [OF s, of "[0..<length (players g)]"]
  show ?thesis by (auto simp: play_round_def)
qed

lemma random_trade_standstill:
  assumes "standstill g"
  shows "\<exists>g'. random_trade rt g = Inr g' \<and> standstill g'"
proof -
  have "active_players g = [0..<length (players g)]"
    using assms
    by (auto simp: active_players_def standstill_def list_all_length circling_def pl_def
          filter_id_conv)
  moreover have "2 \<le> length (players g)" using assms by (simp add: standstill_def)
  moreover have "owned (g\<lparr>draws := n\<rparr>) p = []" for n p
    using assms by (simp add: standstill_owned)
  ultimately show ?thesis
    using assms
    by (auto simp: random_trade_def random_sample2_def random_below_def Let_def standstill_def)
qed

lemma play_step_standstill:
  assumes "standstill g"
  shows "\<exists>g'. play_step fives g = Some (Inr g') \<and> standstill g'"
proof -
  obtain g1 where 1: "(if rounds_no_monopolies g mod 10 = 0 \<and> 0 < rounds_no_monopolies g
            then random_trade fives g else Inr g) = Inr g1" and s1: "standstill g1"
    using random_trade_standstill [OF assms, of fives] assms by (cases "rounds_no_monopolies g mod 10 = 0 \<and> 0 < rounds_no_monopolies g") auto
  obtain g2 where 2: "(if 0 < rounds g1 \<and> rounds g1 mod 50 = 0 then random_trade fives g1 else Inr g1)
      = Inr g2" and s2: "standstill g2"
    using random_trade_standstill [OF s1, of fives] s1 by (cases "0 < rounds g1 \<and> rounds g1 mod 50 = 0") auto
  obtain g3 where 3: "play_round fives g2 = Some (Inr g3)" and s3: "standstill g3"
    using play_round_standstill [OF s2] by auto
  have "standstill (g3\<lparr>rounds_no_monopolies := k\<rparr>)" for k
    using s3 by (simp add: standstill_def)
  with 1 2 3 show ?thesis by (simp add: play_step_def)
qed

lemma play_loop_standstill_aux:
  assumes ret: "play_loop rt g = Some res"
  shows "\<not> (rt = fives \<and> standstill g)"
proof (rule play_loop.raw_induct [where P = "\<lambda>rt g res. \<not> (rt = fives \<and> standstill g)", OF _ ret])
  fix f rt g res
  assume IH: "\<And>rt g res. f rt g = Some res \<Longrightarrow> \<not> (rt = fives \<and> standstill g)"
    and eq: "(if game_over g then Some (Inr g)
      else (case play_step rt g of
              None \<Rightarrow> None
            | Some (Inl e) \<Rightarrow> Some (Inl e)
            | Some (Inr g1) \<Rightarrow> f rt g1)) = Some res"
  show "\<not> (rt = fives \<and> standstill g)"
  proof
    assume a: "rt = fives \<and> standstill g"
    then obtain g1 where "play_step fives g = Some (Inr g1)" and s1: "standstill g1"
      using play_step_standstill by blast
    with a eq have "f fives g1 = Some res" by (simp add: standstill_not_over)
    from IH [OF this] s1 show False by simp
  qed
qed

lemma play_loop_standstill: "standstill g \<Longrightarrow> play_loop fives g = None"
  using play_loop_standstill_aux [of fives g] by (cases "play_loop fives g") auto

subsection \<open>The house pool over a whole game\<close>

lemma stable_trade: "stable J \<Longrightarrow> J g \<Longrightarrow> J (trade p other b s g)"
  by (simp add: trade_def stable_set_owner)

lemma stable_find_trades_from: "stable J \<Longrightarrow> J g \<Longrightarrow> J (find_trades_from buyer sellers g)"
  by (induction sellers) (auto simp: Let_def stable_trade split: option.splits)

lemma stable_find_trades: "stable J \<Longrightarrow> J g \<Longrightarrow> J (find_trades buyer g)"
  by (simp add: find_trades_def stable_find_trades_from)

lemma stable_random_trade:
  assumes "stable J" "J g" "random_trade rt g = Inr g'"
  shows "J g'"
  using assms
  by (auto simp: random_trade_def random_sample2_def random_below_def Let_def
        stable_trade stable_draws split: if_splits sum.splits prod.splits)

lemma pool_inv_play_turns:
  "pool_inv g \<Longrightarrow> play_turns rt ps g = Some (Inr g') \<Longrightarrow> pool_inv g'"
proof (induction ps arbitrary: g)
  case Nil
  then show ?case by simp
next
  case (Cons p ps)
  show ?case
  proof (cases "bankrupt (pl g p)")
    case True
    with Cons show ?thesis by simp
  next
    case False
    with Cons.prems(2) obtain g1 where t: "take_turn rt p g = Some (Inr g1)"
      by (auto split: option.splits sum.splits)
    have "pool_inv g1" using Cons.prems(1) t by (rule pool_inv_take_turn)
    then have f: "pool_inv (find_trades p g1)"
      using stable_pool_inv by (simp add: stable_find_trades)
    show ?thesis
    proof (cases "game_over (find_trades p g1)")
      case True
      with Cons.prems(2) False t f show ?thesis by simp
    next
      case no: False
      with Cons.prems(2) False t
      have "play_turns rt ps (find_trades p g1) = Some (Inr g')" by simp
      with f show ?thesis by (rule Cons.IH)
    qed
  qed
qed

lemma pool_inv_play_round:
  assumes "pool_inv g" "play_round rt g = Some (Inr g')"
  shows "pool_inv g'"
proof -
  have "pool_inv (g\<lparr>rounds := rounds g + 1\<rparr>)"
    using stable_pool_inv assms(1) by (rule stable_rounds)
  then show ?thesis
    using assms(2) unfolding play_round_def by (rule pool_inv_play_turns)
qed

lemma pool_inv_play_step:
  assumes "pool_inv g" "play_step rt g = Some (Inr g')"
  shows "pool_inv g'"
proof -
  from assms(2) obtain g1 g2 g3 where
    a: "g1 = g \<or> random_trade rt g = Inr g1"
    and b: "g2 = g1 \<or> random_trade rt g1 = Inr g2"
    and r: "play_round rt g2 = Some (Inr g3)"
    and c: "g' = g3\<lparr>rounds_no_monopolies := rounds_no_monopolies g3 + 1\<rparr>
            \<or> g' = g3\<lparr>rounds_no_monopolies := 0\<rparr>"
    by (auto simp: play_step_def split: if_splits sum.splits option.splits)
  from a assms(1) have "pool_inv g1" using stable_pool_inv by (auto intro: stable_random_trade)
  with b have "pool_inv g2" using stable_pool_inv by (auto intro: stable_random_trade)
  then have "pool_inv g3" using r by (rule pool_inv_play_round)
  with c show ?thesis using stable_pool_inv by (auto intro: stable_rnm)
qed

lemma pool_inv_play_loop_aux:
  assumes ret: "play_loop rt g = Some res"
  shows "pool_inv g \<longrightarrow> (\<forall>g'. res = Inr g' \<longrightarrow> pool_inv g')"
proof (rule play_loop.raw_induct
    [where P = "\<lambda>rt g res. pool_inv g \<longrightarrow> (\<forall>g'. res = Inr g' \<longrightarrow> pool_inv g')", OF _ ret])
  fix f rt g res
  assume IH: "\<And>rt g res. f rt g = Some res \<Longrightarrow> pool_inv g \<longrightarrow> (\<forall>g'. res = Inr g' \<longrightarrow> pool_inv g')"
    and eq: "(if game_over g then Some (Inr g)
      else (case play_step rt g of
              None \<Rightarrow> None
            | Some (Inl e) \<Rightarrow> Some (Inl e)
            | Some (Inr g1) \<Rightarrow> f rt g1)) = Some res"
  show "pool_inv g \<longrightarrow> (\<forall>g'. res = Inr g' \<longrightarrow> pool_inv g')"
  proof (cases "game_over g")
    case True
    with eq show ?thesis by auto
  next
    case False
    show ?thesis
    proof (intro impI allI)
      fix g'
      assume inv: "pool_inv g" and res: "res = Inr g'"
      from eq False res obtain g1 where s: "play_step rt g = Some (Inr g1)"
        and f: "f rt g1 = Some (Inr g')"
        by (auto split: option.splits sum.splits)
      from inv s have "pool_inv g1" by (rule pool_inv_play_step)
      with IH [OF f] show "pool_inv g'" by simp
    qed
  qed
qed

lemma pool_inv_reset: "pool_inv (reset g)"
  using pool_inv_board_reset [of g] by (simp add: reset_def pool_inv_def house_total_def)

lemma pool_inv_play:
  assumes "play rt g = Some (Inr g')"
  shows "pool_inv g'"
proof -
  from assms have "play_loop rt (reset g) = Some (Inr g')" by (simp add: play_def)
  from pool_inv_play_loop_aux [OF this] pool_inv_reset show ?thesis by simp
qed

subsection \<open>A last round\<close>

lemma play_turns_last_turn:
  assumes "\<not> bankrupt (pl g p)" "take_turn rt p g = Some (Inr g1)" "owned g1 p = []"
    "game_over g1"
  shows "play_turns rt (p # ps) g = Some (Inr g1)"
  using assms by (simp add: find_trades_nothing)

lemma last_round_played:
  "\<exists>g1. play_round (exact_runtime (rolls [1, 1])) last_round = Some (Inr g1)
      \<and> game_over g1 \<and> has_monopolies g1
      \<and> bankrupt (pl g1 0) \<and> \<not> bankrupt (pl g1 (Suc 0)) \<and> rounds g1 = 7"
proof -
  let ?rt = "exact_runtime (rolls [1, 1])"
  let ?g0 = "last_round\<lparr>rounds := 7\<rparr>"
  have start: "\<not> bankrupt (pl ?g0 0)" "length (players last_round) = 2"
    by (simp_all add: ex_defs op_defs)
  obtain g1 where t: "take_turn ?rt 0 ?g0 = Some (Inr g1)"
    and g1: "owned g1 0 = []" "game_over g1" "has_monopoly g1 (Suc 0) Blue"
      "bankrupt (pl g1 0)" "\<not> bankrupt (pl g1 (Suc 0))" "rounds g1 = 7"
      "length (players g1) = 2"
    by (simp add: ex_defs op_defs roll_loop.simps build_while.simps game_over_def
          player_count_def)
  have pt: "play_turns ?rt [0, Suc 0] ?g0 = Some (Inr g1)"
    using start(1) t g1(1,2) by (rule play_turns_last_turn)
  have pr: "play_round ?rt last_round = Some (Inr g1)"
    using pt start(2) by (simp add: play_round_def last_round_def upt_rec)
  have hm: "has_monopolies g1"
    using g1(3,7) by (auto simp: has_monopolies_def list_ex_iff monopolies_def COLORS_def)
  from pr g1(2,4,5,6) hm show ?thesis by blast
qed

lemma last_round_loop:
  "\<exists>g'. play_loop (exact_runtime (rolls [1, 1])) last_round = Some (Inr g') \<and> rounds g' = 7"
proof -
  let ?rt = "exact_runtime (rolls [1, 1])"
  from last_round_played obtain g1 where pr: "play_round ?rt last_round = Some (Inr g1)"
    and g1: "game_over g1" "has_monopolies g1" "rounds g1 = 7"
    by blast
  let ?g2 = "g1\<lparr>rounds_no_monopolies := 0\<rparr>"
  have start: "\<not> game_over last_round" "rounds_no_monopolies last_round = 0"
    "rounds last_round = 6"
    by (simp_all add: ex_defs op_defs game_over_def player_count_def)
  have ps: "play_step ?rt last_round = Some (Inr ?g2)"
    using start(2,3) pr g1(2) by (simp add: play_step_def)
  have over: "game_over ?g2" using g1(1) by (simp add: game_over_def player_count_def)
  have pl2: "play_loop ?rt ?g2 = Some (Inr ?g2)"
    using over by (subst play_loop.simps) simp
  have "play_loop ?rt last_round = Some (Inr ?g2)"
    using start(1) ps pl2 by (subst play_loop.simps) simp
  with g1(3) show ?thesis by simp
qed

lemma pool_inv_play_loop:
  "pool_inv g \<Longrightarrow> play_loop rt g = Some (Inr g') \<Longrightarrow> pool_inv g'"
  using pool_inv_play_loop_aux by blast

section \<open>The claims\<close>

subsection \<open>C1: the house pool\<close>

text \<open>
  C1. The house pool is never negative and, together with the houses on the Property
  cells of the board (a hotel is a house count of 5), always counts 44: \<^verbatim>\<open>Board.reset\<close>
  makes it so, and \<^verbatim>\<open>buy_house\<close> and \<^verbatim>\<open>sell_house\<close> on a cell of the board,
  \<^verbatim>\<open>cover_debt\<close> and \<^verbatim>\<open>take_turn\<close> keep it so whenever they return. So do a
  round of the game and the loop of \<^verbatim>\<open>play\<close>, and \<^verbatim>\<open>play\<close>, which resets the
  board first, returns with it from any game.
\<close>

theorem house_pool_conservation:
  "pool_inv (board_reset g0)
   \<and> (pool_inv g \<and> i < length (board g) \<longrightarrow>
        (\<forall>g'. buy_house p i g = Inr g' \<longrightarrow> pool_inv g'))
   \<and> (pool_inv g \<and> i < length (board g) \<longrightarrow>
        (\<forall>g'. sell_house p i g = Inr g' \<longrightarrow> pool_inv g'))
   \<and> (pool_inv g \<longrightarrow> (\<forall>g'. cover_debt p debt cr g = Inr g' \<longrightarrow> pool_inv g'))
   \<and> (pool_inv g \<longrightarrow> (\<forall>g'. take_turn rt p g = Some (Inr g') \<longrightarrow> pool_inv g'))
   \<and> (pool_inv g \<longrightarrow> (\<forall>g'. play_round rt g = Some (Inr g') \<longrightarrow> pool_inv g'))
   \<and> (pool_inv g \<longrightarrow> (\<forall>g'. play_loop rt g = Some (Inr g') \<longrightarrow> pool_inv g'))
   \<and> (\<forall>g'. play rt g0 = Some (Inr g') \<longrightarrow> pool_inv g')"
proof -
  have 1: "pool_inv (board_reset g0)" by (rule pool_inv_board_reset)
  have 2: "pool_inv g \<and> i < length (board g) \<longrightarrow>
        (\<forall>g'. buy_house p i g = Inr g' \<longrightarrow> pool_inv g')"
    using pool_inv_buy_house by blast
  have 3: "pool_inv g \<and> i < length (board g) \<longrightarrow>
        (\<forall>g'. sell_house p i g = Inr g' \<longrightarrow> pool_inv g')"
    using pool_inv_sell_house by blast
  have 4: "pool_inv g \<longrightarrow> (\<forall>g'. cover_debt p debt cr g = Inr g' \<longrightarrow> pool_inv g')"
    using pool_inv_cover_debt by blast
  have 5: "pool_inv g \<longrightarrow> (\<forall>g'. take_turn rt p g = Some (Inr g') \<longrightarrow> pool_inv g')"
    using pool_inv_take_turn by blast
  have 6: "pool_inv g \<longrightarrow> (\<forall>g'. play_round rt g = Some (Inr g') \<longrightarrow> pool_inv g')"
    using pool_inv_play_round by blast
  have 7: "pool_inv g \<longrightarrow> (\<forall>g'. play_loop rt g = Some (Inr g') \<longrightarrow> pool_inv g')"
    using pool_inv_play_loop by blast
  have 8: "\<forall>g'. play rt g0 = Some (Inr g') \<longrightarrow> pool_inv g'"
    using pool_inv_play by blast
  from 1 2 3 4 5 6 7 8 show ?thesis by (intro conjI)
qed

text \<open>
  On the classic board, the first player holds both brown streets with two houses on
  each, so that 40 houses are in the pool. Buying a house, selling one, covering a debt
  of 30 (which sells one house from each street) and a turn with the dice 1 and 2 (which
  ends on the player's own street and builds both streets up to hotels) all return, with
  39, 41, 42 and 34 houses in the pool. The last round of a game with six houses on the
  blue streets returns, and so does the loop of \<^verbatim>\<open>play\<close> from there, with 38 houses
  in the pool; \<^verbatim>\<open>play\<close> for a single player returns with all 44.
\<close>

theorem house_pool_conservation_witness:
  "pool_inv (board_reset brown_built)
   \<and> pool_inv brown_built
   \<and> (\<exists>g'. buy_house 0 1 brown_built = Inr g' \<and> board_houses g' = 39 \<and> pool_inv g')
   \<and> (\<exists>g'. sell_house 0 3 brown_built = Inr g' \<and> board_houses g' = 41 \<and> pool_inv g')
   \<and> (\<exists>g'. cover_debt 0 30 Bank brown_built = Inr g' \<and> board_houses g' = 42 \<and> pool_inv g')
   \<and> (\<exists>g'. take_turn (exact_runtime (rolls [1, 2])) 0 brown_built = Some (Inr g')
          \<and> board_houses g' = 34 \<and> pool_inv g')
   \<and> pool_inv last_round
   \<and> (\<exists>g'. play_round (exact_runtime (rolls [1, 1])) last_round = Some (Inr g')
          \<and> rounds g' = 7 \<and> pool_inv g')
   \<and> (\<exists>g'. play_loop (exact_runtime (rolls [1, 1])) last_round = Some (Inr g')
          \<and> rounds g' = 7 \<and> pool_inv g')
   \<and> (\<exists>g'. play fives (new_game [new_player 1500 200 0]) = Some (Inr g')
          \<and> board_houses g' = 44 \<and> pool_inv g')"
proof -
  note T = house_pool_conservation [where ?g0.0 = brown_built and g = brown_built and p = 0
      and debt = 30 and cr = Bank and rt = "exact_runtime (rolls [1, 2])"]
  note L = house_pool_conservation [where g = last_round and rt = "exact_runtime (rolls [1, 1])"
      and ?g0.0 = "new_game [new_player 1500 200 0]"]
  note P = house_pool_conservation [where ?g0.0 = "new_game [new_player 1500 200 0]"
      and rt = fives]
  have inv: "pool_inv brown_built"
    by (simp add: pool_inv_def house_total_def ex_defs op_defs)
  have len: "length (board brown_built) = 40"
    by (simp add: ex_defs op_defs)
  have b: "\<exists>g'. buy_house 0 1 brown_built = Inr g' \<and> board_houses g' = 39"
    by (simp add: ex_defs op_defs)
  have s: "\<exists>g'. sell_house 0 3 brown_built = Inr g' \<and> board_houses g' = 41"
    by (simp add: ex_defs op_defs)
  have c: "\<exists>g'. cover_debt 0 30 Bank brown_built = Inr g' \<and> board_houses g' = 42"
    by (simp add: ex_defs op_defs)
  have t: "\<exists>g'. take_turn (exact_runtime (rolls [1, 2])) 0 brown_built = Some (Inr g')
      \<and> board_houses g' = 34"
    by (simp add: ex_defs op_defs roll_loop.simps build_while.simps)
  have len1: "1 < length (board brown_built)" and len3: "3 < length (board brown_built)"
    by (simp_all add: len)
  from T [where i = 1] inv len1 b
  have B: "\<exists>g'. buy_house 0 1 brown_built = Inr g' \<and> board_houses g' = 39 \<and> pool_inv g'"
    by blast
  from T [where i = 3] inv len3 s
  have S: "\<exists>g'. sell_house 0 3 brown_built = Inr g' \<and> board_houses g' = 41 \<and> pool_inv g'"
    by blast
  from T [where i = 1] inv c
  have C: "\<exists>g'. cover_debt 0 30 Bank brown_built = Inr g' \<and> board_houses g' = 42 \<and> pool_inv g'"
    by blast
  from T [where i = 1] inv t
  have U: "\<exists>g'. take_turn (exact_runtime (rolls [1, 2])) 0 brown_built = Some (Inr g')
      \<and> board_houses g' = 34 \<and> pool_inv g'"
    by blast
  from T [where i = 1] have R: "pool_inv (board_reset brown_built)" by blast
  have invl: "pool_inv last_round"
    by (simp add: pool_inv_def house_total_def ex_defs op_defs)
  from last_round_played
  have r: "\<exists>g'. play_round (exact_runtime (rolls [1, 1])) last_round = Some (Inr g')
      \<and> rounds g' = 7"
    by blast
  from L invl r
  have PR: "\<exists>g'. play_round (exact_runtime (rolls [1, 1])) last_round = Some (Inr g')
      \<and> rounds g' = 7 \<and> pool_inv g'"
    by blast
  from L invl last_round_loop
  have PL: "\<exists>g'. play_loop (exact_runtime (rolls [1, 1])) last_round = Some (Inr g')
      \<and> rounds g' = 7 \<and> pool_inv g'"
    by blast
  have p1: "\<exists>g'. play fives (new_game [new_player 1500 200 0]) = Some (Inr g')
      \<and> board_houses g' = 44"
    by (simp add: play_def play_loop.simps game_over_def player_count_def reset_def
          player_reset_def board_reset_def new_game_def new_player_def)
  from P p1
  have PP: "\<exists>g'. play fives (new_game [new_player 1500 200 0]) = Some (Inr g')
      \<and> board_houses g' = 44 \<and> pool_inv g'"
    by blast
  from R inv B S C U invl PR PL PP show ?thesis by (intro conjI)
qed

subsection \<open>C2: covering a debt\<close>

lemma price_of_set_mortgaged [simp]: "price_of (set_mortgaged b c) = price_of c"
  by (cases c) simp_all

lemma house_price_of_add_houses [simp]: "house_price_of (add_houses n c) = house_price_of c"
  by (cases c) simp_all

lemma is_property_set_mortgaged [simp]: "is_property (set_mortgaged b c) = is_property c"
  by (cases c) simp_all

lemma is_property_add_houses [simp]: "is_property (add_houses n c) = is_property c"
  by (cases c) simp_all

lemma mortgaged_of_add_houses [simp]: "mortgaged_of (add_houses n c) = mortgaged_of c"
  by (cases c) simp_all

lemma mortgage_board:
  "mortgage p i g = Inr g1 \<Longrightarrow> board g1 = board (upd_cell i (set_mortgaged True) g)"
  by (auto simp: mortgage_def upd_cell_def split: if_splits)

lemma sell_house_board:
  "sell_house p i g = Inr g1 \<Longrightarrow> board g1 = board (upd_cell i (add_houses (- 1)) g)"
  by (auto simp: sell_house_def upd_cell_def split: cell.splits)

lemma mortgage_each_plan:
  "distinct js \<Longrightarrow>
   mortgage_each p debt which js raised g
     = liquidate_part p debt
         (map Mortgage (filter (\<lambda>i. which (board g ! i) \<and> \<not> mortgaged_of (board g ! i)) js))
         raised g"
proof (induction js arbitrary: raised g)
  case Nil
  show ?case by simp
next
  case (Cons i js)
  from Cons.prems have d: "distinct js" and ni: "i \<notin> set js" by simp_all
  show ?case
  proof (cases "which (board g ! i) \<and> \<not> mortgaged_of (board g ! i)")
    case False
    then show ?thesis using Cons.IH [OF d] by auto
  next
    case True
    show ?thesis
    proof (cases "mortgage p i g")
      case (Inl e)
      with True show ?thesis by simp
    next
      case (Inr g1)
      have b: "board g1 = board (upd_cell i (set_mortgaged True) g)"
        using Inr by (rule mortgage_board)
      have same: "filter (\<lambda>j. which (board g1 ! j) \<and> \<not> mortgaged_of (board g1 ! j)) js
          = filter (\<lambda>j. which (board g ! j) \<and> \<not> mortgaged_of (board g ! j)) js"
        using ni by (intro filter_cong refl) (auto simp: b nth_board_upd_cell)
      have pr: "price_of (board g1 ! i) = price_of (board g ! i)"
        by (simp add: b nth_board_upd_cell)
      show ?thesis
        using True Inr Cons.IH [OF d, of "raised + half (price_of (board g ! i))" g1]
        by (simp add: Let_def pr same)
    qed
  qed
qed

lemma sell_each_plan:
  "distinct js \<Longrightarrow>
   sell_each p debt js raised g
     = liquidate_part p debt
         (map Sell_house (filter (\<lambda>i. is_property (board g ! i) \<and> 0 < houses_of (board g ! i)) js))
         raised g"
proof (induction js arbitrary: raised g)
  case Nil
  show ?case by simp
next
  case (Cons i js)
  from Cons.prems have d: "distinct js" and ni: "i \<notin> set js" by simp_all
  show ?case
  proof (cases "is_property (board g ! i) \<and> 0 < houses_of (board g ! i)")
    case False
    then show ?thesis using Cons.IH [OF d] by auto
  next
    case True
    show ?thesis
    proof (cases "sell_house p i g")
      case (Inl e)
      with True show ?thesis by simp
    next
      case (Inr g1)
      have b: "board g1 = board (upd_cell i (add_houses (- 1)) g)"
        using Inr by (rule sell_house_board)
      have same: "filter (\<lambda>j. is_property (board g1 ! j) \<and> 0 < houses_of (board g1 ! j)) js
          = filter (\<lambda>j. is_property (board g ! j) \<and> 0 < houses_of (board g ! j)) js"
        using ni by (intro filter_cong refl) (auto simp: b nth_board_upd_cell)
      have pr: "house_price_of (board g1 ! i) = house_price_of (board g ! i)"
        by (simp add: b nth_board_upd_cell)
      show ?thesis
        using True Inr Cons.IH [OF d, of "raised + half (house_price_of (board g ! i))" g1]
        by (simp add: Let_def pr same)
    qed
  qed
qed

text \<open>What the sales of a plan leave as it was: the owners, the kind of every cell, and,
  under conditions on the plan, the house counts and the mortgage flags.\<close>

lemma liquidate_part_frame:
  assumes "liquidate_part p debt plan raised g = Inr (covered, r, g1)"
  shows "length (board g1) = length (board g)
    \<and> (\<forall>j. owner_of (board g1 ! j) = owner_of (board g ! j)
           \<and> is_property (board g1 ! j) = is_property (board g ! j)
           \<and> ((\<forall>i. Sell_house i \<notin> set plan) \<longrightarrow>
                 houses_of (board g1 ! j) = houses_of (board g ! j))
           \<and> ((\<forall>i. Mortgage i \<in> set plan \<longrightarrow> \<not> is_property (board g ! i)) \<longrightarrow>
                 is_property (board g ! j) \<longrightarrow>
                 mortgaged_of (board g1 ! j) = mortgaged_of (board g ! j)))"
  using assms
proof (induction plan arbitrary: raised g)
  case Nil
  then show ?case by simp
next
  case (Cons a plan)
  from Cons.prems obtain g2 where pf: "perform p a g = Inr g2"
    by (auto split: sum.splits)
  have step: "length (board g2) = length (board g)
    \<and> (\<forall>j. owner_of (board g2 ! j) = owner_of (board g ! j)
           \<and> is_property (board g2 ! j) = is_property (board g ! j)
           \<and> ((\<forall>i. a \<noteq> Sell_house i) \<longrightarrow> houses_of (board g2 ! j) = houses_of (board g ! j))
           \<and> ((\<forall>i. a = Mortgage i \<longrightarrow> \<not> is_property (board g ! i)) \<longrightarrow>
                 is_property (board g ! j) \<longrightarrow>
                 mortgaged_of (board g2 ! j) = mortgaged_of (board g ! j)))"
  proof (cases a)
    case (Mortgage i)
    with pf have "board g2 = board (upd_cell i (set_mortgaged True) g)"
      by (simp add: mortgage_board)
    then show ?thesis using Mortgage by (auto simp: nth_board_upd_cell)
  next
    case (Sell_house i)
    with pf have "board g2 = board (upd_cell i (add_houses (- 1)) g)"
      by (simp add: sell_house_board)
    then show ?thesis using Sell_house by (auto simp: nth_board_upd_cell)
  qed
  show ?case
  proof (cases "of_int debt < raised + proceeds g a")
    case True
    with Cons.prems pf have "g1 = g2" by simp
    with step show ?thesis by auto
  next
    case False
    with Cons.prems pf
    have "liquidate_part p debt plan (raised + proceeds g a) g2 = Inr (covered, r, g1)"
      by simp
    from Cons.IH [OF this] step show ?thesis by auto
  qed
qed

lemma liquidate_part_append:
  "liquidate_part p debt (xs @ ys) raised g =
     (case liquidate_part p debt xs raised g of
        Inl e \<Rightarrow> Inl e
      | Inr (covered, r, g1) \<Rightarrow>
          if covered then Inr (True, r, g1) else liquidate_part p debt ys r g1)"
proof (induction xs arbitrary: raised g)
  case Nil
  show ?case by simp
next
  case (Cons a xs)
  show ?case by (simp add: Cons.IH split: sum.splits)
qed

lemma liquidate_part_covered:
  "liquidate_part p debt plan raised g = Inr (covered, r, g1) \<Longrightarrow> covered \<Longrightarrow>
   liquidate_part p debt plan raised g = Inr (True, r, g1)"
  by simp


lemma not_property_if_railroad_or_utility:
  "is_railroad c \<or> is_utility c \<Longrightarrow> \<not> is_property c"
  by (cases c) simp_all

lemma cover_debt_is_liquidate:
  "cover_debt p debt cr g = liquidate p debt cr (single_pass_plan g p) g"
proof -
  let ?t1 = "\<lambda>x i. (is_railroad (board x ! i) \<or> is_utility (board x ! i)) \<and> \<not> mortgaged_of (board x ! i)"
  let ?t2 = "\<lambda>x i. is_property (board x ! i) \<and> 0 < houses_of (board x ! i)"
  let ?t3 = "\<lambda>x i. is_property (board x ! i) \<and> \<not> mortgaged_of (board x ! i)"
  let ?A1 = "map Mortgage (filter (?t1 g) (owned g p))"
  let ?A2 = "map Sell_house (filter (?t2 g) (owned g p))"
  let ?A3 = "map Mortgage (filter (?t3 g) (owned g p))"
  have plan: "single_pass_plan g p = ?A1 @ ?A2 @ ?A3"
    by (simp add: single_pass_plan_def)
  have s1: "mortgage_each p debt (\<lambda>c. is_railroad c \<or> is_utility c) (owned g p) 0 g
      = liquidate_part p debt ?A1 0 g"
    by (rule mortgage_each_plan [OF distinct_owned])
  show ?thesis
  proof (cases "liquidate_part p debt ?A1 0 g")
    case (Inl e)
    then show ?thesis
      by (simp add: cover_debt_def s1 liquidate_def plan liquidate_part_append)
  next
    case (Inr res1)
    obtain c1 r1 g1 where res1: "res1 = (c1, r1, g1)" by (cases res1) auto
    note l1 = Inr [unfolded res1]
    note f1 = liquidate_part_frame [OF l1]
    show ?thesis
    proof (cases c1)
      case True
      then show ?thesis
        using l1 by (simp add: cover_debt_def s1 liquidate_def plan liquidate_part_append)
    next
      case n1: False
      have o1: "owned g1 p = owned g p"
        by (rule owned_cong) (use f1 in auto)
      have nos: "\<forall>i. Sell_house i \<notin> set ?A1" by auto
      have nop: "\<forall>i. Mortgage i \<in> set ?A1 \<longrightarrow> \<not> is_property (board g ! i)"
        using not_property_if_railroad_or_utility by auto
      have t2: "?t2 g1 i = ?t2 g i" for i
        using f1 nos by simp
      have s2: "sell_each p debt (owned g1 p) r1 g1 = liquidate_part p debt ?A2 r1 g1"
        using sell_each_plan [OF distinct_owned, of p debt g1 p r1] by (simp add: o1 t2)
      show ?thesis
      proof (cases "liquidate_part p debt ?A2 r1 g1")
        case (Inl e)
        then show ?thesis
          using l1 n1
          by (simp add: cover_debt_def s1 s2 liquidate_def plan liquidate_part_append)
      next
        case (Inr res2)
        obtain c2 r2 g2 where res2: "res2 = (c2, r2, g2)" by (cases res2) auto
        note l2 = Inr [unfolded res2]
        note f2 = liquidate_part_frame [OF l2]
        show ?thesis
        proof (cases c2)
          case True
          then show ?thesis
            using l1 n1 l2
            by (simp add: cover_debt_def s1 s2 liquidate_def plan liquidate_part_append)
        next
          case n2: False
          have o2: "owned g2 p = owned g p"
            unfolding o1 [symmetric] by (rule owned_cong) (use f2 in auto)
          have nom: "\<forall>i. Mortgage i \<in> set ?A2 \<longrightarrow> \<not> is_property (board g1 ! i)" by auto
          have t3: "?t3 g2 i = ?t3 g i" for i
          proof -
            have "?t3 g2 i = ?t3 g1 i" using f2 nom by auto
            also have "\<dots> = ?t3 g i" using f1 nop by auto
            finally show ?thesis .
          qed
          have s3: "mortgage_each p debt is_property (owned g2 p) r2 g2
              = liquidate_part p debt ?A3 r2 g2"
            using mortgage_each_plan [OF distinct_owned, of p debt is_property g2 p r2]
            by (simp add: o2 t3)
          show ?thesis
          proof (cases "liquidate_part p debt ?A3 r2 g2")
            case (Inl e)
            then show ?thesis
              using l1 n1 l2 n2
              by (simp add: cover_debt_def s1 s2 s3 liquidate_def plan liquidate_part_append)
          next
            case (Inr res3)
            obtain c3 r3 g3 where res3: "res3 = (c3, r3, g3)" by (cases res3) auto
            show ?thesis
              using l1 n1 l2 n2 Inr [unfolded res3]
              by (simp add: cover_debt_def s1 s2 s3 liquidate_def plan liquidate_part_append)
          qed
        qed
      qed
    qed
  qed
qed


lemma perform_prices:
  assumes "perform p a g = Inr g2"
  shows "price_of (board g2 ! j) = price_of (board g ! j)
       \<and> house_price_of (board g2 ! j) = house_price_of (board g ! j)"
proof (cases a)
  case (Mortgage i)
  with assms have "board g2 = board (upd_cell i (set_mortgaged True) g)"
    by (simp add: mortgage_board)
  then show ?thesis by (cases "board g ! i") (auto simp: nth_board_upd_cell)
next
  case (Sell_house i)
  with assms have "board g2 = board (upd_cell i (add_houses (- 1)) g)"
    by (simp add: sell_house_board)
  then show ?thesis by (cases "board g ! i") (auto simp: nth_board_upd_cell)
qed

lemma perform_proceeds: "perform p a g = Inr g2 \<Longrightarrow> proceeds g2 b = proceeds g b"
  by (cases b) (simp_all add: perform_prices)

lemma liquidate_part_sum:
  "liquidate_part p debt plan raised g = Inr (covered, r, g1) \<Longrightarrow>
   (covered \<longrightarrow> of_int debt < r)
   \<and> (\<not> covered \<longrightarrow> r = raised + sum_list (map (proceeds g) plan)
                     \<and> (plan \<noteq> [] \<longrightarrow> r \<le> of_int debt))"
proof (induction plan arbitrary: raised g)
  case Nil
  then show ?case by simp
next
  case (Cons a plan)
  from Cons.prems obtain g2 where pf: "perform p a g = Inr g2"
    by (auto split: sum.splits)
  show ?case
  proof (cases "of_int debt < raised + proceeds g a")
    case True
    with Cons.prems pf show ?thesis by auto
  next
    case False
    with Cons.prems pf
    have rest: "liquidate_part p debt plan (raised + proceeds g a) g2 = Inr (covered, r, g1)"
      by simp
    have same: "map (proceeds g2) plan = map (proceeds g) plan"
      using perform_proceeds [OF pf] by simp
    from Cons.IH [OF rest] False show ?thesis
      by (cases "plan = []") (auto simp: same)
  qed
qed

text \<open>
  What the source does: \<^verbatim>\<open>cover_debt\<close> is the cascade over the single-pass plan. It
  returns at the first sale after which the proceeds added up exceed the debt; it declares
  bankruptcy when that plan is used up, and then the proceeds of that plan do not exceed
  the debt.
\<close>

lemma cover_debt_single_pass:
  "cover_debt p debt cr g = liquidate p debt cr (single_pass_plan g p) g
   \<and> (liquidate_part p debt (single_pass_plan g p) 0 g = Inr (covered, raised, g1) \<longrightarrow>
        cover_debt p debt cr g = Inr (if covered then g1 else declare_bankruptcy p cr g1)
        \<and> (covered \<longrightarrow> of_int debt < raised)
        \<and> (\<not> covered \<longrightarrow>
              raised = sum_list (map (proceeds g) (single_pass_plan g p))
              \<and> (0 \<le> debt \<longrightarrow> raised \<le> of_int debt)))"
proof (intro conjI impI)
  show eq: "cover_debt p debt cr g = liquidate p debt cr (single_pass_plan g p) g"
    by (rule cover_debt_is_liquidate)
  assume l: "liquidate_part p debt (single_pass_plan g p) 0 g = Inr (covered, raised, g1)"
  show "cover_debt p debt cr g = Inr (if covered then g1 else declare_bankruptcy p cr g1)"
    using l by (simp add: eq liquidate_def)
  note s = liquidate_part_sum [OF l]
  { assume covered then show "of_int debt < raised" using s by simp }
  { assume "\<not> covered" then show "raised = sum_list (map (proceeds g) (single_pass_plan g p))"
      using s by simp }
  { assume "\<not> covered" and "0 \<le> debt" then show "raised \<le> of_int debt"
      using s by (cases "single_pass_plan g p = []") auto }
qed

text \<open>
  The two plans are the same when no property of the player has more than one house;
  there the source runs the cascade of the specification.
\<close>

lemma sell_all_once:
  "\<forall>i\<in>set js. houses_of (board g ! i) \<le> 1 \<Longrightarrow>
   concat (map (\<lambda>i. replicate (nat (houses_of (board g ! i))) (Sell_house i))
             (filter (\<lambda>i. is_property (board g ! i)) js))
     = map Sell_house (filter (\<lambda>i. is_property (board g ! i) \<and> 0 < houses_of (board g ! i)) js)"
proof (induction js)
  case Nil
  show ?case by simp
next
  case (Cons i js)
  then have h: "houses_of (board g ! i) \<le> 1" by simp
  have "nat (houses_of (board g ! i)) = (if 0 < houses_of (board g ! i) then 1 else 0)"
    using h by auto
  with Cons show ?case by simp
qed

lemma plans_agree:
  assumes "\<forall>i\<in>set (owned g p). houses_of (board g ! i) \<le> 1"
  shows "liquidation_plan g p = single_pass_plan g p"
  using sell_all_once [OF assms] by (simp add: liquidation_plan_def single_pass_plan_def)

lemma cover_debt_few_houses:
  assumes "\<forall>i\<in>set (owned g p). houses_of (board g ! i) \<le> 1"
  shows "cover_debt p debt cr g = liquidate p debt cr (liquidation_plan g p) g"
  using plans_agree [OF assms] by (simp add: cover_debt_is_liquidate)

text \<open>
  The scenario of the specification, where the player has no houses. The player owes 300
  in rent with 50 in cash, so the debt to cover is 250. The plan is the mortgage of the
  railroad (cell 5) and then of the street (cell 3), although the street comes first on
  the board; the railroad alone raises 100, both raise 350, which exceeds 250. The player
  is not bankrupt, both cells are mortgaged, and after the rent the player has 100 and the
  owner 1800.
\<close>

lemma cover_debt_scenario:
  "liquidation_plan rent_game 0 = [Mortgage 5, Mortgage 3]
   \<and> liquidate_part 0 250 [Mortgage 5] 0 rent_game
       = Inr (False, 100, upd_pl 0 (\<lambda>q. q\<lparr>cash := 150\<rparr>) (upd_cell 5 (set_mortgaged True) rent_game))
   \<and> (\<exists>g1. liquidate 0 250 (To_player 1) (liquidation_plan rent_game 0) rent_game = Inr g1
          \<and> cover_debt 0 250 (To_player 1) rent_game = Inr g1
          \<and> \<not> bankrupt (pl g1 0) \<and> cash (pl g1 0) = 400
          \<and> mortgaged_of (board g1 ! 5) \<and> mortgaged_of (board g1 ! 3))
   \<and> (\<exists>g'. pay_rent no_dice 0 24 rent_game = Inr g' \<and> \<not> bankrupt (pl g' 0)
          \<and> cash (pl g' 0) = 100 \<and> cash (pl g' (Suc 0)) = 1800)"
proof -
  have plan: "liquidation_plan rent_game 0 = [Mortgage 5, Mortgage 3]"
    by (simp add: ex_defs op_defs)
  have first: "liquidate_part 0 250 [Mortgage 5] 0 rent_game
       = Inr (False, 100, upd_pl 0 (\<lambda>q. q\<lparr>cash := 150\<rparr>) (upd_cell 5 (set_mortgaged True) rent_game))"
    by (simp add: ex_defs op_defs)
  have few: "\<forall>i\<in>set (owned rent_game 0). houses_of (board rent_game ! i) \<le> 1"
    by (simp add: ex_defs op_defs)
  obtain g1 where l: "liquidate 0 250 (To_player 1) (liquidation_plan rent_game 0) rent_game = Inr g1"
    and g1: "\<not> bankrupt (pl g1 0) \<and> cash (pl g1 0) = 400
          \<and> mortgaged_of (board g1 ! 5) \<and> mortgaged_of (board g1 ! 3)"
    unfolding plan by (simp add: ex_defs op_defs)
  from cover_debt_few_houses [OF few, of 250 "To_player 1"] l
  have c: "cover_debt 0 250 (To_player 1) rent_game = Inr g1" by simp
  have pay: "\<exists>g'. pay_rent no_dice 0 24 rent_game = Inr g' \<and> \<not> bankrupt (pl g' 0)
          \<and> cash (pl g' 0) = 100 \<and> cash (pl g' (Suc 0)) = 1800"
    by (simp add: ex_defs op_defs)
  from plan first l g1 c pay show ?thesis by blast
qed

text \<open>
  C2 at a concrete input. The first player has 80 in cash and both brown streets (price
  60, house price 50) with two houses on each, and owes the second player a railroad rent
  of 200, so the debt to cover is 120. The cascade of the specification sells the four
  houses, which raises 100, and mortgages the first street, which makes 130 and exceeds
  120: the player is not bankrupt. \<^verbatim>\<open>cover_debt\<close> sells one house of each street,
  mortgages both streets with a house left on each, has raised 110, which does not exceed
  120, and declares the player bankrupt; the two houses left would have raised 50 more.
  \<^verbatim>\<open>pay_rent\<close> gets there from the rent.
\<close>

theorem cover_debt_leaves_houses_unsold:
  "owned railroad_rent_game 0 = [1, 3]
   \<and> map (\<lambda>i. houses_of (board railroad_rent_game ! i)) [1, 3] = [2, 2]
   \<and> cash (pl railroad_rent_game 0) = 80
   \<and> rent_due no_dice 5 railroad_rent_game = Inr (200, railroad_rent_game)
   \<and> liquidation_plan railroad_rent_game 0
       = [Sell_house 1, Sell_house 1, Sell_house 3, Sell_house 3, Mortgage 1, Mortgage 3]
   \<and> sum_list (map (proceeds railroad_rent_game) (liquidation_plan railroad_rent_game 0)) = 160
   \<and> (\<exists>g1. liquidate 0 120 (To_player 1) (liquidation_plan railroad_rent_game 0)
                 railroad_rent_game = Inr g1
          \<and> \<not> bankrupt (pl g1 0) \<and> cash (pl g1 0) = 210
          \<and> map (\<lambda>i. houses_of (board g1 ! i)) [1, 3] = [0, 0])
   \<and> single_pass_plan railroad_rent_game 0
       = [Sell_house 1, Sell_house 3, Mortgage 1, Mortgage 3]
   \<and> (\<exists>g'. cover_debt 0 120 (To_player 1) railroad_rent_game = Inr g'
          \<and> bankrupt (pl g' 0) \<and> cash (pl g' 0) = 190
          \<and> map (\<lambda>i. houses_of (board g' ! i)) [1, 3] = [1, 1]
          \<and> map (\<lambda>i. mortgaged_of (board g' ! i)) [1, 3] = [True, True])
   \<and> (\<exists>g'. pay_rent no_dice 0 5 railroad_rent_game = Inr g'
          \<and> bankrupt (pl g' 0)
          \<and> map (\<lambda>i. houses_of (board g' ! i)) [1, 3] = [1, 1]
          \<and> map (\<lambda>i. owner_of (board g' ! i)) [1, 3] = [Some 1, Some 1]
          \<and> cash (pl g' (Suc 0)) = 1690)"
proof -
  let ?g = railroad_rent_game
  have a: "owned ?g 0 = [1, 3]"
      "map (\<lambda>i. houses_of (board ?g ! i)) [1, 3] = [2, 2]"
      "cash (pl ?g 0) = 80"
    by (simp_all add: ex_defs op_defs)
  have r: "rent_due no_dice 5 ?g = Inr (200, ?g)"
    by (simp add: ex_defs op_defs Let_def)
  have p: "liquidation_plan ?g 0
       = [Sell_house 1, Sell_house 1, Sell_house 3, Sell_house 3, Mortgage 1, Mortgage 3]"
    by (simp add: ex_defs op_defs eval_nat_numeral)
  have s: "sum_list (map (proceeds ?g) (liquidation_plan ?g 0)) = 160"
    unfolding p by (simp add: ex_defs op_defs)
  have l: "\<exists>g1. liquidate 0 120 (To_player 1) (liquidation_plan ?g 0) ?g = Inr g1
          \<and> \<not> bankrupt (pl g1 0) \<and> cash (pl g1 0) = 210
          \<and> map (\<lambda>i. houses_of (board g1 ! i)) [1, 3] = [0, 0]"
    unfolding p by (simp add: ex_defs op_defs)
  have q: "single_pass_plan ?g 0 = [Sell_house 1, Sell_house 3, Mortgage 1, Mortgage 3]"
    by (simp add: ex_defs op_defs)
  have c: "\<exists>g'. cover_debt 0 120 (To_player 1) ?g = Inr g'
          \<and> bankrupt (pl g' 0) \<and> cash (pl g' 0) = 190
          \<and> map (\<lambda>i. houses_of (board g' ! i)) [1, 3] = [1, 1]
          \<and> map (\<lambda>i. mortgaged_of (board g' ! i)) [1, 3] = [True, True]"
    by (simp add: ex_defs op_defs)
  have y: "\<exists>g'. pay_rent no_dice 0 5 ?g = Inr g'
          \<and> bankrupt (pl g' 0)
          \<and> map (\<lambda>i. houses_of (board g' ! i)) [1, 3] = [1, 1]
          \<and> map (\<lambda>i. owner_of (board g' ! i)) [1, 3] = [Some 1, Some 1]
          \<and> cash (pl g' (Suc 0)) = 1690"
    by (simp add: ex_defs op_defs Let_def)
  from a r p s l q c y show ?thesis by (intro conjI)
qed

subsection \<open>C3: paying the bank\<close>

text \<open>
  C3 at a concrete input. The first player has 40 in cash and owns one utility, not
  mortgaged, worth 75 in mortgage. The luxury tax of 75 leaves a shortfall of 35.
  \<^verbatim>\<open>pay_bank\<close> calls \<^verbatim>\<open>cover_debt\<close> with the whole 75: the mortgage raises 75, which
  does not exceed 75, and the player is declared bankrupt with 115 in cash. Called with
  the shortfall 35, as \<^verbatim>\<open>pay_rent\<close> does, \<^verbatim>\<open>cover_debt\<close> returns after the mortgage
  and the player is not bankrupt.
\<close>

theorem pay_bank_covers_whole_amount:
  "cash (pl tax_game 0) = 40 \<and> owned tax_game 0 = [12]
   \<and> pay_bank 0 75 tax_game
       = (case cover_debt 0 75 Bank tax_game of Inl e \<Rightarrow> Inl e | Inr g \<Rightarrow> Inr g)
   \<and> (\<exists>g'. pay_bank 0 75 tax_game = Inr g' \<and> bankrupt (pl g' 0) \<and> cash (pl g' 0) = 115)
   \<and> (\<exists>g'. cover_debt 0 (75 - 40) Bank tax_game = Inr g' \<and> \<not> bankrupt (pl g' 0)
          \<and> cash (pl g' 0) = 115)"
  by (simp add: ex_defs op_defs)

subsection \<open>C4: rent\<close>

text \<open>
  C4, as stated, where the owner holds the two brown streets with no house on them: the
  schedule of the first street gives 2 for no house, and the rent due is 4; the player
  who lands there pays 4.
\<close>

theorem monopoly_doubles_base_rent:
  "(case board brown_owner_game ! 1 of
      Property r \<Rightarrow> map_of (rent_data r) (houses r) | _ \<Rightarrow> None) = Some 2
   \<and> rent_due no_dice 1 brown_owner_game = Inr (4, brown_owner_game)
   \<and> (\<exists>g'. pay_rent no_dice 0 1 brown_owner_game = Inr g'
          \<and> cash (pl g' 0) = cash (pl brown_owner_game 0) - 4
          \<and> cash (pl g' 1) = cash (pl brown_owner_game 1) + 4)"
  by (simp add: ex_defs op_defs)

text \<open>
  C4, amended: the rent of a Property cell that is not mortgaged is \<open>rent_data[houses]\<close>,
  doubled when the owner has the monopoly of the cell's colour and the cell has no house;
  it depends on nothing else. A mortgaged cell of any ownable kind has rent 0. A player
  who is not bankrupt and has the cash pays exactly this rent to the owner.
\<close>

theorem rent_of_property:
  "(mortgaged_of (board g ! i) \<longrightarrow> rent_due rt i g = Inr (0, g))
   \<and> (board g ! i = Property r \<and> \<not> mortgaged r \<and> owner r = Some w
        \<and> map_of (rent_data r) (houses r) = Some x \<longrightarrow>
        rent_due rt i g
          = Inr (if has_monopoly g w (color r) \<and> houses r = 0 then x * 2 else x, g))
   \<and> (rent_due rt i g = Inr (rent, g) \<and> owner_of (board g ! i) = Some w \<and> w \<noteq> p
        \<and> p < length (players g) \<and> w < length (players g)
        \<and> \<not> bankrupt (pl g p) \<and> rent \<le> cash (pl g p) \<longrightarrow>
        (\<exists>g'. pay_rent rt p i g = Inr g'
            \<and> cash (pl g' p) = cash (pl g p) - rent
            \<and> cash (pl g' w) = cash (pl g w) + rent))"
proof (intro conjI impI)
  assume "mortgaged_of (board g ! i)"
  then show "rent_due rt i g = Inr (0, g)" by (simp add: rent_due_def)
next
  assume "board g ! i = Property r \<and> \<not> mortgaged r \<and> owner r = Some w
        \<and> map_of (rent_data r) (houses r) = Some x"
  then show "rent_due rt i g
      = Inr (if has_monopoly g w (color r) \<and> houses r = 0 then x * 2 else x, g)"
    by (simp add: rent_due_def)
next
  assume "rent_due rt i g = Inr (rent, g) \<and> owner_of (board g ! i) = Some w \<and> w \<noteq> p
        \<and> p < length (players g) \<and> w < length (players g)
        \<and> \<not> bankrupt (pl g p) \<and> rent \<le> cash (pl g p)"
  then show "\<exists>g'. pay_rent rt p i g = Inr g'
            \<and> cash (pl g' p) = cash (pl g p) - rent
            \<and> cash (pl g' w) = cash (pl g w) + rent"
    by (simp add: pay_rent_def pl_upd_pl)
qed

text \<open>On the classic board: a lone brown street owned by the second player has rent 2;
  mortgaged it has rent 0; with both brown streets the rent is 4 and is paid.\<close>

theorem rent_of_property_witness:
  "rent_due no_dice 3 (upd_cell 3 (set_mortgaged True) brown_owner_game)
     = Inr (0, upd_cell 3 (set_mortgaged True) brown_owner_game)
   \<and> rent_due no_dice 3 brown_owner_game = Inr (8, brown_owner_game)
   \<and> (\<exists>g'. pay_rent no_dice 0 3 brown_owner_game = Inr g'
          \<and> cash (pl g' 0) = 1492 \<and> cash (pl g' 1) = 1508)"
proof -
  let ?g = brown_owner_game
  let ?r = "\<lparr>price = 60, owner = Some 1, mortgaged = False, color = Brown,
            rent_data = [(0, 4), (1, 20), (2, 60), (3, 180), (4, 320), (5, 450)],
            houses = 0, house_price = 50\<rparr>"
  have m: "mortgaged_of (board (upd_cell 3 (set_mortgaged True) ?g) ! 3)"
    by (simp add: ex_defs op_defs)
  have c: "board ?g ! 3 = Property ?r \<and> \<not> mortgaged ?r \<and> owner ?r = Some 1
        \<and> map_of (rent_data ?r) (houses ?r) = Some 4"
    by (simp add: ex_defs op_defs)
  have mono: "has_monopoly ?g 1 Brown"
    by (simp add: ex_defs op_defs)
  from rent_of_property [where g = "upd_cell 3 (set_mortgaged True) ?g" and i = 3 and rt = no_dice] m
  have 1: "rent_due no_dice 3 (upd_cell 3 (set_mortgaged True) ?g)
     = Inr (0, upd_cell 3 (set_mortgaged True) ?g)" by blast
  from rent_of_property [where g = ?g and i = 3 and rt = no_dice and r = ?r and w = 1 and x = 4] c mono
  have 2: "rent_due no_dice 3 ?g = Inr (8, ?g)" by simp
  have p: "owner_of (board ?g ! 3) = Some 1 \<and> (1::nat) \<noteq> 0
        \<and> 0 < length (players ?g) \<and> 1 < length (players ?g)
        \<and> \<not> bankrupt (pl ?g 0) \<and> 8 \<le> cash (pl ?g 0)"
    and cs: "cash (pl ?g 0) = 1500" "cash (pl ?g (Suc 0)) = 1500"
    by (simp_all add: ex_defs op_defs)
  from rent_of_property [where g = ?g and i = 3 and rt = no_dice and rent = 8 and w = 1 and p = 0] 2 p
  have 3: "\<exists>g'. pay_rent no_dice 0 3 ?g = Inr g'
            \<and> cash (pl g' 0) = cash (pl ?g 0) - 8
            \<and> cash (pl g' 1) = cash (pl ?g 1) + 8" by blast
  from 1 2 3 show ?thesis by (simp add: cs)
qed

subsection \<open>C5: landing on an unowned cell\<close>

text \<open>
  C5, as stated, in its example: with cash 100 and \<open>cash_threshold\<close> 50, the player who
  lands on the unowned brown street priced 60 does not buy it. \<open>100 - 60 = 40\<close> does not
  exceed 50; nothing changes.
\<close>

theorem landing_declines_at_threshold_50:
  "price_of (board (new_game [new_player 100 50 3]) ! 3) = 60
   \<and> owner_of (board (new_game [new_player 100 50 3]) ! 3) = None
   \<and> resolve_space no_dice 0 3 (new_game [new_player 100 50 3])
       = Inr (new_game [new_player 100 50 3])"
  by (simp add: ex_defs op_defs)

text \<open>
  C5, amended: on landing on an unowned ownable cell the player buys it if and only if
  cash minus price strictly exceeds \<open>cash_threshold\<close>; then the cash goes down by exactly
  the price and the cell's owner becomes that player; otherwise nothing changes. (With
  cash 100 and price 60 the player buys at a threshold of 30 and declines at 50 and at
  200.)
\<close>

theorem landing_on_unowned:
  assumes "p < length (players g)" "i < length (board g)"
    and "is_property (board g ! i) \<or> is_railroad (board g ! i) \<or> is_utility (board g ! i)"
    and "owner_of (board g ! i) = None"
  shows "(cash_threshold (pl g p) < cash (pl g p) - price_of (board g ! i) \<longrightarrow>
            (\<exists>g'. resolve_space rt p i g = Inr g'
                \<and> cash (pl g' p) = cash (pl g p) - price_of (board g ! i)
                \<and> owner_of (board g' ! i) = Some p))
       \<and> (\<not> cash_threshold (pl g p) < cash (pl g p) - price_of (board g ! i) \<longrightarrow>
            resolve_space rt p i g = Inr g)"
proof (cases "board g ! i")
  case (Space k)
  with assms(3) show ?thesis by simp
next
  case (Property r)
  with assms show ?thesis
    by (auto simp: resolve_space_def buy_def pl_upd_pl nth_board_upd_cell)
next
  case (Railroad t)
  with assms show ?thesis
    by (auto simp: resolve_space_def buy_def pl_upd_pl nth_board_upd_cell)
next
  case (Utility t)
  with assms show ?thesis
    by (auto simp: resolve_space_def buy_def pl_upd_pl nth_board_upd_cell)
qed

theorem landing_on_unowned_witness:
  "(\<exists>g'. resolve_space no_dice 0 3 (new_game [new_player 100 30 3]) = Inr g'
        \<and> cash (pl g' 0) = 40 \<and> owner_of (board g' ! 3) = Some 0)
   \<and> resolve_space no_dice 0 3 (new_game [new_player 100 200 3])
       = Inr (new_game [new_player 100 200 3])"
proof -
  have a: "0 < length (players (new_game [new_player 100 t 3]))"
      "3 < length (board (new_game [new_player 100 t 3]))"
      "is_property (board (new_game [new_player 100 t 3]) ! 3)
       \<or> is_railroad (board (new_game [new_player 100 t 3]) ! 3)
       \<or> is_utility (board (new_game [new_player 100 t 3]) ! 3)"
      "owner_of (board (new_game [new_player 100 t 3]) ! 3) = None"
      "cash (pl (new_game [new_player 100 t 3]) 0) = 100"
      "price_of (board (new_game [new_player 100 t 3]) ! 3) = 60"
      "cash_threshold (pl (new_game [new_player 100 t 3]) 0) = t" for t
    by (simp_all add: ex_defs op_defs)
  from landing_on_unowned [OF a(1-4), of 30 no_dice] landing_on_unowned [OF a(1-4), of 200 no_dice]
  show ?thesis by (simp add: a(5-7))
qed

subsection \<open>C6: even building\<close>

text \<open>
  C6, as stated, on the classic board. The first player holds the brown monopoly with one
  house and two houses, which is level, and no cell has more than five houses. The dice
  3 and 4 take the player to a street of the second player with a rent of 26 against 10
  in cash. \<^verbatim>\<open>cover_debt\<close> sells one house of the first brown street, which covers the
  debt, and nothing is built at the end of the turn. After the turn the player still
  holds the monopoly, with no house and two houses.
\<close>

theorem take_turn_leaves_monopoly_uneven:
  "has_monopoly uneven_game 0 Brown
   \<and> props_of uneven_game 0 Brown = [1, 3]
   \<and> map (\<lambda>i. houses_of (board uneven_game ! i)) [1, 3] = [1, 2]
   \<and> level uneven_game (props_of uneven_game 0 Brown)
   \<and> house_cap uneven_game
   \<and> (\<exists>g'. take_turn (exact_runtime (rolls [3, 4])) 0 uneven_game = Some (Inr g')
          \<and> has_monopoly g' 0 Brown
          \<and> props_of g' 0 Brown = [1, 3]
          \<and> map (\<lambda>i. houses_of (board g' ! i)) [1, 3] = [0, 2]
          \<and> \<not> level g' (props_of g' 0 Brown))"
  by (simp add: ex_defs op_defs roll_loop.simps build_while.simps props_of_def level_def
        house_cap_def)

text \<open>
  C6, amended. Building is even, selling is not. Whenever \<^verbatim>\<open>take_turn\<close> returns: if no
  cell had more than five houses before the turn, none has after it; and the asset
  management that ends the turn keeps level every colour of the player that was level
  when the asset management started (the player's properties of that colour differ by at
  most one house). The sale of houses by \<^verbatim>\<open>cover_debt\<close> earlier in the turn takes one
  house from each property in board order and stops when the debt is covered; what it
  leaves uneven stays uneven unless the building can make it up.
\<close>

theorem building_is_even:
  "(house_cap g \<and> take_turn rt p g = Some (Inr g') \<longrightarrow> house_cap g')
   \<and> (take_turn rt p g = Some (Inr g') \<longrightarrow>
        (\<exists>g1. (if in_jail (pl g p) then Some (jail_turn rt p g) else roll_loop rt p 0 g)
                 = Some (Inr g1)
             \<and> manage_assets rt p g1 = Some (Inr g')
             \<and> (\<forall>c. level g1 (props_of g1 p c) \<longrightarrow> level g' (props_of g' p c))))"
proof (intro conjI impI)
  assume "house_cap g \<and> take_turn rt p g = Some (Inr g')"
  then show "house_cap g'" using house_cap_take_turn by blast
next
  assume "take_turn rt p g = Some (Inr g')"
  then obtain g1 where
    m: "(if in_jail (pl g p) then Some (jail_turn rt p g) else roll_loop rt p 0 g) = Some (Inr g1)"
    and a: "manage_assets rt p g1 = Some (Inr g')"
    by (rule take_turn_phases)
  have "\<forall>c. level g1 (props_of g1 p c) \<longrightarrow> level g' (props_of g' p c)"
    using a by (blast intro: level_manage_assets)
  with m a show "\<exists>g1. (if in_jail (pl g p) then Some (jail_turn rt p g) else roll_loop rt p 0 g)
                 = Some (Inr g1)
             \<and> manage_assets rt p g1 = Some (Inr g')
             \<and> (\<forall>c. level g1 (props_of g1 p c) \<longrightarrow> level g' (props_of g' p c))"
    by blast
qed

text \<open>
  On the classic board, the first player holds both brown streets with two houses on
  each and 1500 in cash. The dice 1 and 2 end on the player's own street; the asset
  management starts from a level monopoly and builds both streets up to five houses.
\<close>

theorem building_is_even_witness:
  "house_cap brown_built
   \<and> (\<exists>g1 g'. roll_loop (exact_runtime (rolls [1, 2])) 0 0 brown_built = Some (Inr g1)
          \<and> level g1 (props_of g1 0 Brown)
          \<and> take_turn (exact_runtime (rolls [1, 2])) 0 brown_built = Some (Inr g')
          \<and> map (\<lambda>i. houses_of (board g' ! i)) [1, 3] = [5, 5]
          \<and> house_cap g' \<and> level g' (props_of g' 0 Brown))"
proof -
  let ?rt = "exact_runtime (rolls [1, 2])"
  have cap: "house_cap brown_built"
    by (simp add: ex_defs op_defs house_cap_def)
  have nj: "\<not> in_jail (pl brown_built 0)"
    by (simp add: ex_defs op_defs)
  obtain g1 where r: "roll_loop ?rt 0 0 brown_built = Some (Inr g1)"
    and l1: "level g1 (props_of g1 0 Brown)"
    by (simp add: ex_defs op_defs roll_loop.simps props_of_def level_def)
  obtain g' where t: "take_turn ?rt 0 brown_built = Some (Inr g')"
    and h: "map (\<lambda>i. houses_of (board g' ! i)) [1, 3] = [5, 5]"
    by (simp add: ex_defs op_defs roll_loop.simps build_while.simps)
  note T = building_is_even [of brown_built ?rt 0 g']
  from T cap t have c': "house_cap g'" by blast
  from T t nj r have "level g1 (props_of g1 0 Brown) \<longrightarrow> level g' (props_of g' 0 Brown)"
    by auto
  with l1 have lv: "level g' (props_of g' 0 Brown)" by simp
  show ?thesis
    by (intro conjI exI [of _ g1] exI [of _ g']) (fact cap r l1 t h c' lv)+
qed

subsection \<open>C7: bankruptcy\<close>

text \<open>
  C7 at a concrete input. The first player, with 30 in cash, owns a brown street and a
  railroad. Bankrupt to the bank: the flag is set and both cells have no owner. Bankrupt
  to the second player: the flag is set, both cells are the second player's, the second
  player's cash goes from 1500 to 1530, and the first player's cash is still 30:
  \<^verbatim>\<open>declare_bankruptcy\<close> credits the creditor and does not debit the bankrupt player.
\<close>

theorem declare_bankruptcy_keeps_cash:
  "owned debtor_game 0 = [1, 5]
   \<and> cash (pl debtor_game 0) = 30 \<and> cash (pl debtor_game 1) = 1500
   \<and> bankrupt (pl (declare_bankruptcy 0 Bank debtor_game) 0)
   \<and> map (\<lambda>i. owner_of (board (declare_bankruptcy 0 Bank debtor_game) ! i)) [1, 5] = [None, None]
   \<and> bankrupt (pl (declare_bankruptcy 0 (To_player 1) debtor_game) 0)
   \<and> map (\<lambda>i. owner_of (board (declare_bankruptcy 0 (To_player 1) debtor_game) ! i)) [1, 5]
       = [Some 1, Some 1]
   \<and> cash (pl (declare_bankruptcy 0 (To_player 1) debtor_game) 1) = 1530
   \<and> cash (pl (declare_bankruptcy 0 (To_player 1) debtor_game) 0) = 30"
  by (simp add: ex_defs op_defs)

subsection \<open>C8: moving\<close>

lemma wrap_iff:
  fixes a s :: int
  assumes "0 \<le> a" "a < 40" "0 < s" "s < 40"
  shows "((a + s) mod 40 < a) = (40 \<le> a + s)"
proof (cases "a + s < 40")
  case True
  then have "(a + s) mod 40 = a + s" using assms by simp
  with True assms show ?thesis by simp
next
  case False
  have "(a + s - 40) mod 40 = a + s - 40"
    by (rule mod_pos_pos_trivial) (use False assms in linarith)+
  moreover have "(a + s - 40) mod 40 = (a + s) mod 40" by simp
  ultimately have "(a + s) mod 40 = a + s - 40" by simp
  then show ?thesis using False assms by simp
qed

lemma roll_total:
  assumes "roll rt g = ((r, double), g1)"
  shows "2 \<le> r \<and> r \<le> 12"
  using assms by (auto simp: roll_def randint16_def Let_def)

text \<open>
  C8. \<^verbatim>\<open>move\<close> is called from \<^verbatim>\<open>take_turn\<close> and \<^verbatim>\<open>leave_jail\<close> only, with the
  total of a roll of two dice, which is from 2 to 12. For every move of a positive number
  of spaces from a position in \<open>[0,40)\<close> the new position is \<open>(old + spaces) mod 40\<close>,
  lies in \<open>[0,40)\<close> and is a key of a board of 40 cells, and the move pays nothing or 200
  once; for a move of fewer than 40 spaces, as every total of two dice is, it pays the 200
  exactly when \<open>old + spaces\<close> reaches 40, that is when the move wraps past position 0.
\<close>

theorem move_position_and_bonus:
  assumes "p < length (players g)" "0 \<le> space (pl g p)" "space (pl g p) < 40" "0 < spaces"
  shows "space (pl (move p spaces g) p) = (space (pl g p) + spaces) mod 40
    \<and> 0 \<le> space (pl (move p spaces g) p) \<and> space (pl (move p spaces g) p) < 40
    \<and> (length (board g) = 40 \<longrightarrow>
         board_at (move p spaces g) (space (pl (move p spaces g) p))
           = Inr (nat ((space (pl g p) + spaces) mod 40)))
    \<and> (cash (pl (move p spaces g) p) = cash (pl g p)
         \<or> cash (pl (move p spaces g) p) = cash (pl g p) + 200)
    \<and> (spaces < 40 \<longrightarrow>
         cash (pl (move p spaces g) p)
           = cash (pl g p) + (if 40 \<le> space (pl g p) + spaces then 200 else 0))"
proof -
  let ?new = "(space (pl g p) + spaces) mod 40"
  have sp: "space (pl (move p spaces g) p) = ?new"
    using assms(1) by (simp add: move_def Let_def pl_upd_pl)
  have rng: "0 \<le> ?new \<and> ?new < 40" by simp
  have bd: "board (move p spaces g) = board g"
    by (simp add: move_def Let_def)
  have csh: "cash (pl (move p spaces g) p)
      = cash (pl g p) + (if 0 < spaces \<and> ?new < space (pl g p) then 200 else 0)"
    using assms(1) by (simp add: move_def Let_def pl_upd_pl)
  have wrap: "spaces < 40 \<Longrightarrow> (?new < space (pl g p)) = (40 \<le> space (pl g p) + spaces)"
    using assms(2,3,4) by (rule wrap_iff)
  have c1: "cash (pl (move p spaces g) p) = cash (pl g p)
         \<or> cash (pl (move p spaces g) p) = cash (pl g p) + 200"
    unfolding csh by simp
  have c2: "spaces < 40 \<longrightarrow> cash (pl (move p spaces g) p)
           = cash (pl g p) + (if 40 \<le> space (pl g p) + spaces then 200 else 0)"
    unfolding csh using wrap assms(4) by simp
  have b: "length (board g) = 40 \<longrightarrow>
         board_at (move p spaces g) (space (pl (move p spaces g) p)) = Inr (nat ?new)"
    unfolding sp using rng by (simp add: board_at_def bd)
  show ?thesis
    using rng b c1 c2 by (simp add: sp)
qed

text \<open>A roll of 7 from position 35 on the classic board: to position 2, with the 200.\<close>

theorem move_position_and_bonus_witness:
  "space (pl (move 0 7 (new_game [new_player 1500 200 35])) 0) = 2
   \<and> board_at (move 0 7 (new_game [new_player 1500 200 35]))
        (space (pl (move 0 7 (new_game [new_player 1500 200 35])) 0)) = Inr 2
   \<and> cash (pl (move 0 7 (new_game [new_player 1500 200 35])) 0) = 1700"
proof -
  let ?g = "new_game [new_player 1500 200 35]"
  have h: "0 < length (players ?g)" "0 \<le> space (pl ?g 0)" "space (pl ?g 0) < 40" "(0::int) < 7"
    by (simp_all add: new_game_def new_player_def pl_def)
  have l: "length (board ?g) = 40" by (simp add: new_game_def classic_board_def)
  have s: "space (pl ?g 0) = 35" "cash (pl ?g 0) = 1500"
    by (simp_all add: new_game_def new_player_def pl_def)
  from move_position_and_bonus [OF h] l s show ?thesis by auto
qed

text \<open>
  The bound of 40 spaces in the last part is met by every roll. Beyond it the test of
  \<^verbatim>\<open>move\<close>, new position below old position, no longer tells a lap: a direct call
  with 40 spaces takes the player at position 5 once round the board and back to
  position 5 without the 200.
\<close>

lemma move_full_lap:
  "space (pl (move 0 40 (new_game [new_player 1500 200 5])) 0) = 5
   \<and> cash (pl (move 0 40 (new_game [new_player 1500 200 5])) 0) = 1500"
  by (simp add: move_def Let_def pl_def upd_pl_def new_game_def new_player_def)

subsection \<open>C9: the end of the game\<close>

lemma reset_classic_board: "map reset_cell classic_board = classic_board"
  by (simp add: classic_board_def street_def railroad_def utility_def)

lemma standstill_reset:
  assumes "board g = classic_board" "2 \<le> length (players g)"
  shows "standstill (reset g)"
  using assms
  by (simp add: standstill_def reset_def board_reset_def reset_classic_board list_all_iff
        player_reset_def circling_def)

text \<open>
  C9, as stated, for four players on the classic board and dice that show 5 and 5 at
  every roll: \<^verbatim>\<open>play\<close> does not return. Every player goes from the start over the jail
  (just visiting) and the free parking to jail on the third double, and from then on
  leaves jail for the free parking and is sent back from the go-to-jail cell; nobody
  buys, pays or goes bankrupt, and the random trades find nothing to swap.
\<close>

theorem play_with_fives_never_returns:
  "length (players four_players) = 4 \<and> play fives four_players = None"
proof -
  have "standstill (reset four_players)"
    by (rule standstill_reset) (simp_all add: four_players_def new_game_def)
  then show ?thesis
    by (simp add: play_def play_loop_standstill four_players_def new_game_def)
qed

lemma play_loop_game_over_aux:
  assumes ret: "play_loop rt g = Some res"
  shows "\<forall>g'. res = Inr g' \<longrightarrow> game_over g'"
proof (rule play_loop.raw_induct [where P = "\<lambda>rt g res. \<forall>g'. res = Inr g' \<longrightarrow> game_over g'", OF _ ret])
  fix f rt g res
  assume IH: "\<And>rt g res. f rt g = Some res \<Longrightarrow> \<forall>g'. res = Inr g' \<longrightarrow> game_over g'"
    and eq: "(if game_over g then Some (Inr g)
      else (case play_step rt g of
              None \<Rightarrow> None
            | Some (Inl e) \<Rightarrow> Some (Inl e)
            | Some (Inr g1) \<Rightarrow> f rt g1)) = Some res"
  show "\<forall>g'. res = Inr g' \<longrightarrow> game_over g'"
  proof (cases "game_over g")
    case True
    with eq show ?thesis by auto
  next
    case False
    with eq show ?thesis
      by (auto split: option.splits sum.splits dest: IH)
  qed
qed

lemma random_trade_rounds:
  "random_trade rt g = Inr g1 \<Longrightarrow>
   rounds g1 = rounds g \<and> rounds_no_monopolies g1 = rounds_no_monopolies g"
  by (auto simp: random_trade_def random_sample2_def random_below_def Let_def trade_def
        upd_cell_def split: if_splits sum.splits prod.splits)

text \<open>
  C9, amended. \<^verbatim>\<open>play\<close> need not return. When it returns, and when its loop returns
  from any state, exactly one player is not bankrupt. Each round of the loop first
  calls \<^verbatim>\<open>random_trade\<close> as often as is due (once when the count of rounds without a
  monopoly is a positive multiple of 10, once more when the count of rounds is a
  positive multiple of 50), then plays the round and updates the first count.
\<close>

theorem play_returns_with_one_player:
  "(play_loop rt g = Some (Inr g') \<longrightarrow> player_count g' = 1)
   \<and> (play rt g = Some (Inr g') \<longrightarrow> player_count g' = 1)
   \<and> play_step rt g =
       (case random_trades rt (trades_due g) g of
          Inl e \<Rightarrow> Some (Inl e)
        | Inr g1 \<Rightarrow> round_and_count rt g1)"
proof (intro conjI impI)
  assume "play_loop rt g = Some (Inr g')"
  from play_loop_game_over_aux [OF this] show "player_count g' = 1"
    by (simp add: game_over_def)
next
  assume "play rt g = Some (Inr g')"
  then have "play_loop rt (reset g) = Some (Inr g')" by (simp add: play_def)
  from play_loop_game_over_aux [OF this] show "player_count g' = 1"
    by (simp add: game_over_def)
next
  let ?a = "rounds_no_monopolies g mod 10 = 0 \<and> 0 < rounds_no_monopolies g"
  let ?b = "0 < rounds g \<and> rounds g mod 50 = 0"
  have rc: "(case play_round rt x of
                  None \<Rightarrow> None
                | Some (Inl e) \<Rightarrow> Some (Inl e)
                | Some (Inr g3) \<Rightarrow>
                    if \<not> has_monopolies g3
                    then Some (Inr (g3\<lparr>rounds_no_monopolies := rounds_no_monopolies g3 + 1\<rparr>))
                    else Some (Inr (g3\<lparr>rounds_no_monopolies := 0\<rparr>))) = round_and_count rt x" for x
    by (simp add: round_and_count_def split: option.splits sum.splits)
  show "play_step rt g =
       (case random_trades rt (trades_due g) g of
          Inl e \<Rightarrow> Some (Inl e)
        | Inr g1 \<Rightarrow> round_and_count rt g1)"
  proof (cases ?a)
    case a: True
    show ?thesis
    proof (cases "random_trade rt g")
      case (Inl e)
      with a show ?thesis by (simp add: play_step_def trades_due_def)
    next
      case (Inr g1)
      note r = random_trade_rounds [OF Inr]
      show ?thesis
        using a Inr r by (cases ?b) (auto simp: play_step_def trades_due_def rc split: sum.splits)
    qed
  next
    case na: False
    then show ?thesis
      by (cases ?b) (auto simp: play_step_def trades_due_def rc split: sum.splits)
  qed
qed


text \<open>
  The loop of \<^verbatim>\<open>play\<close> in the last round of a game on the classic board: the first
  player rolls 1 and 1, lands on the second blue street and cannot raise the rent of
  1400; the loop returns after this seventh round with the second player as the winner.
  And \<^verbatim>\<open>play\<close> for a single player returns at once.
\<close>

theorem play_returns_with_one_player_witness:
  "(\<exists>g'. play_loop (exact_runtime (rolls [1, 1])) last_round = Some (Inr g')
        \<and> player_count g' = 1 \<and> bankrupt (pl g' 0) \<and> \<not> bankrupt (pl g' (Suc 0))
        \<and> rounds g' = 7)
   \<and> (\<exists>g'. play fives (new_game [new_player 1500 200 0]) = Some (Inr g')
        \<and> player_count g' = 1)"
proof -
  let ?rt = "exact_runtime (rolls [1, 1])"
  have start: "\<not> game_over last_round" "trades_due last_round = 0"
    by (simp_all add: ex_defs op_defs game_over_def player_count_def trades_due_def)
  from last_round_played obtain g1 where pr: "play_round ?rt last_round = Some (Inr g1)"
    and g1: "game_over g1" "has_monopolies g1" "bankrupt (pl g1 0)"
      "\<not> bankrupt (pl g1 (Suc 0))" "rounds g1 = 7"
    by blast
  note hm = g1(2)
  let ?g2 = "g1\<lparr>rounds_no_monopolies := 0\<rparr>"
  have ps: "play_step ?rt last_round = Some (Inr ?g2)"
    using play_returns_with_one_player [of ?rt last_round, THEN conjunct2, THEN conjunct2]
      start(2) pr hm
    by (simp add: round_and_count_def)
  have over: "game_over ?g2" using g1(1) by (simp add: game_over_def player_count_def)
  have pl2: "play_loop ?rt ?g2 = Some (Inr ?g2)"
    using over by (subst play_loop.simps) simp
  have pl: "play_loop ?rt last_round = Some (Inr ?g2)"
    using start(1) ps pl2 by (subst play_loop.simps) simp
  from play_returns_with_one_player [of ?rt last_round ?g2] pl
  have c1: "player_count ?g2 = 1" by blast
  have a: "\<exists>g'. play_loop ?rt last_round = Some (Inr g')
        \<and> player_count g' = 1 \<and> bankrupt (pl g' 0) \<and> \<not> bankrupt (pl g' (Suc 0))
        \<and> rounds g' = 7"
    using pl c1 g1(3,4,5) by (auto simp: pl_def)
  obtain g' where p1: "play fives (new_game [new_player 1500 200 0]) = Some (Inr g')"
    by (simp add: play_def play_loop.simps game_over_def player_count_def reset_def
          player_reset_def board_reset_def new_game_def new_player_def)
  from play_returns_with_one_player [of fives "new_game [new_player 1500 200 0]" g'] p1
  have "player_count g' = 1" by blast
  with p1 a show ?thesis by blast
qed

subsection \<open>C10: bail on the third turn in jail\<close>

text \<open>
  C10. A player in jail for the third turn who rolls no double pays the bail of 50 with
  \<^verbatim>\<open>pay_bank\<close> and then leaves jail whatever \<^verbatim>\<open>pay_bank\<close> did to the
  \<^verbatim>\<open>bankrupt\<close> flag: the turn is \<^verbatim>\<open>leave_jail\<close> from the state that \<^verbatim>\<open>pay_bank\<close>
  returned, that is the move by the rolled total and the resolution of the cell landed
  on, followed by the asset management.
\<close>

theorem third_jail_turn_leaves_after_bail:
  assumes "p < length (players g)" "in_jail (pl g p)" "turns_in_jail (pl g p) = 2"
    and "roll rt (upd_pl p (\<lambda>q. q\<lparr>turns_in_jail := turns_in_jail q + 1\<rparr>) g) = ((r, False), g1)"
    and "pay_bank p 50 g1 = Inr g2"
  shows "take_turn rt p g =
           (case leave_jail rt p r g2 of
              Inl e \<Rightarrow> Some (Inl e)
            | Inr g3 \<Rightarrow> manage_assets rt p g3)
       \<and> leave_jail rt p r g2 =
           (case board_at (move p r (upd_pl p (\<lambda>q. q\<lparr>in_jail := False\<rparr>) g2))
                   (space (pl (move p r (upd_pl p (\<lambda>q. q\<lparr>in_jail := False\<rparr>) g2)) p)) of
              Inl e \<Rightarrow> Inl e
            | Inr i \<Rightarrow>
                (case resolve_space rt p i (move p r (upd_pl p (\<lambda>q. q\<lparr>in_jail := False\<rparr>) g2)) of
                   Inl e \<Rightarrow> Inl e
                 | Inr g3 \<Rightarrow> Inr (upd_pl p (\<lambda>q. q\<lparr>turns_in_jail := 0\<rparr>) g3)))"
proof -
  have "players g1 = players (upd_pl p (\<lambda>q. q\<lparr>turns_in_jail := turns_in_jail q + 1\<rparr>) g)"
    using assms(4) by (auto simp: roll_def randint16_def Let_def)
  then have "turns_in_jail (pl g1 p) = 3"
    using assms(1,3) by (simp add: pl_def upd_pl_def)
  then have "jail_turn rt p g = leave_jail rt p r g2"
    using assms(4,5) by (simp add: jail_turn_def)
  then have "take_turn rt p g =
           (case leave_jail rt p r g2 of
              Inl e \<Rightarrow> Some (Inl e)
            | Inr g3 \<Rightarrow> manage_assets rt p g3)"
    using assms(2) by (simp add: take_turn_def)
  then show ?thesis by (simp add: leave_jail_def Let_def)
qed

text \<open>
  On the classic board: the first player sits in jail for the third turn with 20 in cash
  and nothing to sell, rolls 2 and 3, and is bankrupt to the bank over the bail. The
  player all the same leaves jail, moves to the railroad at position 15, which the second
  player owns, is there declared bankrupt a second time over the rent of 50, and the
  second player is credited with the 20.
\<close>

theorem third_jail_turn_leaves_after_bail_witness:
  "(\<exists>g2. pay_bank 0 50 ((upd_pl 0 (\<lambda>q. q\<lparr>turns_in_jail := 3\<rparr>) bail_game)\<lparr>draws := 2\<rparr>) = Inr g2
        \<and> bankrupt (pl g2 0) \<and> in_jail (pl g2 0) \<and> space (pl g2 0) = 10
        \<and> take_turn (exact_runtime (rolls [2, 3])) 0 bail_game
            = (case leave_jail (exact_runtime (rolls [2, 3])) 0 5 g2 of
                 Inl e \<Rightarrow> Some (Inl e)
               | Inr g3 \<Rightarrow> manage_assets (exact_runtime (rolls [2, 3])) 0 g3))
   \<and> (\<exists>g'. take_turn (exact_runtime (rolls [2, 3])) 0 bail_game = Some (Inr g')
          \<and> bankrupt (pl g' 0) \<and> \<not> in_jail (pl g' 0) \<and> space (pl g' 0) = 15
          \<and> turns_in_jail (pl g' 0) = 0 \<and> cash (pl g' (Suc 0)) = 1520)"
proof -
  let ?rt = "exact_runtime (rolls [2, 3])"
  let ?g1 = "(upd_pl 0 (\<lambda>q. q\<lparr>turns_in_jail := 3\<rparr>) bail_game)\<lparr>draws := 2\<rparr>"
  have h: "0 < length (players bail_game)" "in_jail (pl bail_game 0)"
      "turns_in_jail (pl bail_game 0) = 2"
    by (simp_all add: ex_defs op_defs)
  have ro: "roll ?rt (upd_pl 0 (\<lambda>q. q\<lparr>turns_in_jail := turns_in_jail q + 1\<rparr>) bail_game)
      = ((5, False), ?g1)"
    by (simp add: ex_defs op_defs)
  obtain g2 where pb: "pay_bank 0 50 ?g1 = Inr g2"
    and b: "bankrupt (pl g2 0) \<and> in_jail (pl g2 0) \<and> space (pl g2 0) = 10"
    by (simp add: ex_defs op_defs)
  note eq = third_jail_turn_leaves_after_bail [OF h ro pb, THEN conjunct1]
  have t: "\<exists>g'. take_turn ?rt 0 bail_game = Some (Inr g')
          \<and> bankrupt (pl g' 0) \<and> \<not> in_jail (pl g' 0) \<and> space (pl g' 0) = 15
          \<and> turns_in_jail (pl g' 0) = 0 \<and> cash (pl g' (Suc 0)) = 1520"
    by (simp add: ex_defs op_defs roll_loop.simps build_while.simps)
  from pb b eq t show ?thesis by blast
qed

end
